theory Spec2Isabelle
  imports Complex_Main "HOL-Library.Multiset"
begin

section \<open>Geometry primitives (src/src/utils.js)\<close>

text \<open>
  A rectangle of the program is a GeoJSON object handed to the turf library. The parser
  builds every rectangle with \<^verbatim>\<open>createRect\<close>, that is \<^verbatim>\<open>turf.bboxPolygon([x0, y0, x1, y1])\<close>,
  which yields a polygon \<^emph>\<open>feature\<close> (an object with \<^verbatim>\<open>type\<close> and \<^verbatim>\<open>geometry\<close>) and stores
  the four numbers, as given, in the feature's \<^verbatim>\<open>bbox\<close> member. A bare polygon
  \<^emph>\<open>geometry\<close> (an object with \<^verbatim>\<open>type\<close> but no \<^verbatim>\<open>geometry\<close> and no \<^verbatim>\<open>bbox\<close> member) is the
  other GeoJSON shape \<^verbatim>\<open>turf.bbox\<close> accepts; it is given here by two opposite corners.

  The program reads a rectangle only through \<^verbatim>\<open>turf.bbox\<close>. For an object with a \<^verbatim>\<open>bbox\<close>
  member \<^verbatim>\<open>turf.bbox\<close> returns that member unchanged, so the box of
  \<^verbatim>\<open>createRect([10, 10, 0, 0])\<close> is \<^verbatim>\<open>[10, 10, 0, 0]\<close>: nothing orders the corners. For an
  object without the member it computes the least and greatest coordinates of the
  points. JavaScript numbers are modelled as real numbers.
\<close>

datatype rect =
    Feature real real real real
  | Geometry real real real real

record bbox =
  b0 :: real
  b1 :: real
  b2 :: real
  b3 :: real

fun turf_bbox :: "rect \<Rightarrow> bbox" where
  "turf_bbox (Feature x0 y0 x1 y1) = \<lparr>b0 = x0, b1 = y0, b2 = x1, b3 = y1\<rparr>"
| "turf_bbox (Geometry x0 y0 x1 y1) =
     \<lparr>b0 = min x0 x1, b1 = min y0 y1, b2 = max x0 x1, b3 = max y0 y1\<rparr>"

definition bboxPolygon :: "real \<Rightarrow> real \<Rightarrow> real \<Rightarrow> real \<Rightarrow> rect" where
  "bboxPolygon x0 y0 x1 y1 = Feature x0 y0 x1 y1"

definition createRect :: "real \<Rightarrow> real \<Rightarrow> real \<Rightarrow> real \<Rightarrow> rect" where
  "createRect x0 y0 x1 y1 = bboxPolygon x0 y0 x1 y1"

text \<open>\<^verbatim>\<open>getDistance(rect1, rect2, buffer = 0.1)\<close>, branch by branch.\<close>

definition getDistance :: "rect \<Rightarrow> rect \<Rightarrow> real \<Rightarrow> real" where
  "getDistance rect1 rect2 buffer =
     (let bbox1 = turf_bbox rect1; bbox2 = turf_bbox rect2 in
      if b0 bbox1 \<le> b2 bbox2 \<and> b0 bbox2 \<le> b2 bbox1 \<and>
         b1 bbox1 \<le> b3 bbox2 \<and> b1 bbox2 \<le> b3 bbox1
      then 0
      else
        let dx = (if b2 bbox1 < b0 bbox2 then b0 bbox2 - b2 bbox1
                  else if b2 bbox2 < b0 bbox1 then b0 bbox1 - b2 bbox2
                  else 0);
            dy = (if b3 bbox1 < b1 bbox2 then b1 bbox2 - b3 bbox1
                  else if b3 bbox2 < b1 bbox1 then b1 bbox1 - b3 bbox2
                  else 0)
        in sqrt (dx * dx + dy * dy) - buffer * 2)"

text \<open>The values of \<^verbatim>\<open>dx\<close> and \<^verbatim>\<open>dy\<close> in \<^verbatim>\<open>getDistance\<close>, named for the lemmas below.\<close>

definition code_dx :: "rect \<Rightarrow> rect \<Rightarrow> real" where
  "code_dx rect1 rect2 =
     (let bbox1 = turf_bbox rect1; bbox2 = turf_bbox rect2 in
      if b2 bbox1 < b0 bbox2 then b0 bbox2 - b2 bbox1
      else if b2 bbox2 < b0 bbox1 then b0 bbox1 - b2 bbox2
      else 0)"

definition code_dy :: "rect \<Rightarrow> rect \<Rightarrow> real" where
  "code_dy rect1 rect2 =
     (let bbox1 = turf_bbox rect1; bbox2 = turf_bbox rect2 in
      if b3 bbox1 < b1 bbox2 then b1 bbox2 - b3 bbox1
      else if b3 bbox2 < b1 bbox1 then b1 bbox1 - b3 bbox2
      else 0)"

text \<open>
  \<^verbatim>\<open>isNear\<close> calls \<^verbatim>\<open>getDistance(rect1, rect2)\<close>, so the buffer is the default 0.1.
  Its guard \<^verbatim>\<open>!rect1 || !rect2\<close> and its \<^verbatim>\<open>catch\<close> concern null and malformed
  objects, which the type \<^typ>\<open>rect\<close> does not contain.
\<close>

definition isNear :: "rect \<Rightarrow> rect \<Rightarrow> real \<Rightarrow> bool" where
  "isNear rect1 rect2 distance = (getDistance rect1 rect2 (1 / 10) < distance)"

definition isHorizontalNear :: "rect \<Rightarrow> rect \<Rightarrow> real \<Rightarrow> bool" where
  "isHorizontalNear rect1 rect2 distance =
     (let bbox1 = turf_bbox rect1; bbox2 = turf_bbox rect2;
          height1 = b3 bbox1 - b1 bbox1;
          height2 = b3 bbox2 - b1 bbox2;
          width1 = b2 bbox1 - b0 bbox1;
          width2 = b2 bbox2 - b0 bbox2;
          isHorizontalLine1 = (height1 < 2 \<and> width1 > 10);
          isHorizontalLine2 = (height2 < 2 \<and> width2 > 10)
      in if isHorizontalLine1 \<and> isHorizontalLine2 then
           (let horizontalOverlap =
                  ((b0 bbox1 \<le> b2 bbox2 \<and> b0 bbox2 \<le> b2 bbox1) \<or>
                   \<bar>b0 bbox1 - b0 bbox2\<bar> < 5 \<or>
                   \<bar>b2 bbox1 - b2 bbox2\<bar> < 5)
            in if horizontalOverlap then
                 (let verticalDistance =
                        min \<bar>b1 bbox1 - b3 bbox2\<bar> \<bar>b3 bbox1 - b1 bbox2\<bar>
                  in verticalDistance < distance)
               else False)
         else False)"

definition unionRects :: "rect \<Rightarrow> rect \<Rightarrow> rect" where
  "unionRects rect1 rect2 =
     (let bbox1 = turf_bbox rect1; bbox2 = turf_bbox rect2;
          minX = min (b0 bbox1) (b0 bbox2);
          minY = min (b1 bbox1) (b1 bbox2);
          maxX = max (b2 bbox1) (b2 bbox2);
          maxY = max (b3 bbox1) (b3 bbox2)
      in bboxPolygon minX minY maxX maxY)"

text \<open>
  \<^verbatim>\<open>isValidRect\<close>: an object with both \<^verbatim>\<open>type\<close> and \<^verbatim>\<open>geometry\<close> (a feature) is valid
  without further checks; otherwise the bounding box must have positive width and height.
\<close>

fun isValidRect :: "rect \<Rightarrow> bool" where
  "isValidRect (Feature x0 y0 x1 y1) = True"
| "isValidRect (Geometry x0 y0 x1 y1) =
     (let bbox = turf_bbox (Geometry x0 y0 x1 y1) in
      b0 bbox \<le> b2 bbox \<and> b1 bbox \<le> b3 bbox \<and>
      b2 bbox - b0 bbox > 0 \<and> b3 bbox - b1 bbox > 0)"

subsection \<open>The distance as the specification words it\<close>

text \<open>
  The specification's rectangles have ordered corners: \<open>x0 \<le> x1\<close> and \<open>y0 \<le> y1\<close>.
\<close>

definition ordered_corners :: "rect \<Rightarrow> bool" where
  "ordered_corners r =
     (b0 (turf_bbox r) \<le> b2 (turf_bbox r) \<and> b1 (turf_bbox r) \<le> b3 (turf_bbox r))"

definition intervals_overlap :: "real \<Rightarrow> real \<Rightarrow> real \<Rightarrow> real \<Rightarrow> bool" where
  "intervals_overlap lo1 hi1 lo2 hi2 = (lo1 \<le> hi2 \<and> lo2 \<le> hi1)"

definition axis_gap :: "real \<Rightarrow> real \<Rightarrow> real \<Rightarrow> real \<Rightarrow> real" where
  "axis_gap lo1 hi1 lo2 hi2 =
     (if intervals_overlap lo1 hi1 lo2 hi2 then 0 else max (lo2 - hi1) (lo1 - hi2))"

definition overlap_x :: "rect \<Rightarrow> rect \<Rightarrow> bool" where
  "overlap_x a b =
     intervals_overlap (b0 (turf_bbox a)) (b2 (turf_bbox a)) (b0 (turf_bbox b)) (b2 (turf_bbox b))"

definition overlap_y :: "rect \<Rightarrow> rect \<Rightarrow> bool" where
  "overlap_y a b =
     intervals_overlap (b1 (turf_bbox a)) (b3 (turf_bbox a)) (b1 (turf_bbox b)) (b3 (turf_bbox b))"

definition gap_x :: "rect \<Rightarrow> rect \<Rightarrow> real" where
  "gap_x a b =
     axis_gap (b0 (turf_bbox a)) (b2 (turf_bbox a)) (b0 (turf_bbox b)) (b2 (turf_bbox b))"

definition gap_y :: "rect \<Rightarrow> rect \<Rightarrow> real" where
  "gap_y a b =
     axis_gap (b1 (turf_bbox a)) (b3 (turf_bbox a)) (b1 (turf_bbox b)) (b3 (turf_bbox b))"

definition spec_distance :: "rect \<Rightarrow> rect \<Rightarrow> real \<Rightarrow> real" where
  "spec_distance a b buffer =
     (if overlap_x a b \<and> overlap_y a b then 0
      else sqrt (gap_x a b * gap_x a b + gap_y a b * gap_y a b) - 2 * buffer)"

section \<open>Region clustering (packages/pdf2md/src/rectProcessor.ts)\<close>

text \<open>
  \<^verbatim>\<open>rectProcessor.ts\<close> imports its helpers from the module \<^verbatim>\<open>./utils\<close>; they are read here
  from \<^verbatim>\<open>src/src/utils.js\<close>, as modelled above. \<^verbatim>\<open>src/src/markdownConverter.js\<close> holds the
  same \<^verbatim>\<open>mergeRects\<close> and \<^verbatim>\<open>adsorbRectsToRects\<close> in JavaScript.

  The merge test of the scanning loop:
  \<^verbatim>\<open>isNear(rect, otherRect, distance) || (horizontalDistance && isHorizontalNear(...))\<close>.
  \<^verbatim>\<open>horizontalDistance\<close> is a number or null; null and 0 are falsy.
\<close>

definition shouldMerge :: "real \<Rightarrow> real option \<Rightarrow> rect \<Rightarrow> rect \<Rightarrow> bool" where
  "shouldMerge distance horizontalDistance rect otherRect =
     (isNear rect otherRect distance \<or>
      (case horizontalDistance of
         None \<Rightarrow> False
       | Some h \<Rightarrow> h \<noteq> 0 \<and> isHorizontalNear rect otherRect h))"

text \<open>
  The \<^verbatim>\<open>for\<close> loop over the remaining queue: on a merge the current rectangle becomes the
  union, the other rectangle is spliced out and the scan goes on at the same position.
  The result is the final current rectangle, the rectangles left in the queue, and
  whether the loop set \<^verbatim>\<open>merged\<close>.
\<close>

fun scanOthers :: "real \<Rightarrow> real option \<Rightarrow> rect \<Rightarrow> rect list \<Rightarrow> rect \<times> rect list \<times> bool" where
  "scanOthers d h rect [] = (rect, [], False)"
| "scanOthers d h rect (otherRect # rest) =
     (if shouldMerge d h rect otherRect
      then (case scanOthers d h (unionRects rect otherRect) rest of
              (r, kept, m) \<Rightarrow> (r, kept, True))
      else (case scanOthers d h rect rest of
              (r, kept, m) \<Rightarrow> (r, otherRect # kept, m)))"

lemma scanOthers_kept:
  "scanOthers d h rect rs = (r, kept, m) \<Longrightarrow>
     length kept \<le> length rs \<and> (m \<longrightarrow> length kept < length rs)"
proof (induction rs arbitrary: rect r kept m)
  case Nil
  then show ?case by simp
next
  case (Cons a rs)
  show ?case
  proof (cases "shouldMerge d h rect a")
    case True
    obtain r' k' m' where e: "scanOthers d h (unionRects rect a) rs = (r', k', m')"
      by (metis prod_cases3)
    with True Cons.prems have "kept = k'" by simp
    with Cons.IH [OF e] show ?thesis by simp
  next
    case False
    obtain r' k' m' where e: "scanOthers d h rect rs = (r', k', m')"
      by (metis prod_cases3)
    with False Cons.prems have "kept = a # k'" "m = m'" by simp_all
    with Cons.IH [OF e] show ?thesis by simp
  qed
qed

text \<open>
  The inner \<^verbatim>\<open>while (workingRects.length > 0)\<close>: shift the head, scan the rest, push the
  result to \<^verbatim>\<open>newRectList\<close>. It returns the new list and the \<^verbatim>\<open>merged\<close> flag of the pass.
\<close>

function mergePass :: "real \<Rightarrow> real option \<Rightarrow> rect list \<Rightarrow> rect list \<times> bool" where
  "mergePass d h [] = ([], False)"
| "mergePass d h (rect # workingRects) =
     (case scanOthers d h rect workingRects of
        (r, kept, m) \<Rightarrow>
          (case mergePass d h kept of
             (newRectList, m') \<Rightarrow> (r # newRectList, m \<or> m')))"
  by pat_completeness auto
termination
  by (relation "measure (\<lambda>(d, h, ws). length ws)")
     (auto simp: less_Suc_eq_le dest: scanOthers_kept [OF sym])

lemma mergePass_length:
  "length (fst (mergePass d h ws)) \<le> length ws \<and>
   (snd (mergePass d h ws) \<longrightarrow> length (fst (mergePass d h ws)) < length ws)"
proof (induction d h ws rule: mergePass.induct)
  case (1 d h)
  show ?case by simp
next
  case (2 d h rect workingRects)
  obtain r kept m where s: "scanOthers d h rect workingRects = (r, kept, m)"
    by (metis prod_cases3)
  obtain out m' where p: "mergePass d h kept = (out, m')"
    by (cases "mergePass d h kept") auto
  from "2.IH" [OF s [symmetric] refl] p
  have ih: "length out \<le> length kept" "m' \<longrightarrow> length out < length kept"
    by simp_all
  show ?case using s p scanOthers_kept [OF s] ih by auto
qed

lemma mergePass_shrinks: "mergePass d h ws = (out, True) \<Longrightarrow> length out < length ws"
  using mergePass_length [of d h ws] by simp

text \<open>
  The outer \<^verbatim>\<open>while (merged && workingRects.length > 0)\<close>; \<^verbatim>\<open>merged\<close> starts true, so the
  first pass runs whenever the list is not empty.
\<close>

function mergeLoop :: "real \<Rightarrow> real option \<Rightarrow> rect list \<Rightarrow> rect list" where
  "mergeLoop d h workingRects =
     (if workingRects = [] then workingRects
      else (case mergePass d h workingRects of
              (newRectList, merged) \<Rightarrow>
                if merged then mergeLoop d h newRectList else newRectList))"
  by pat_completeness auto
termination
  by (relation "measure (\<lambda>(d, h, ws). length ws)")
     (auto dest: mergePass_shrinks [OF sym])

declare mergeLoop.simps [simp del]

text \<open>
  \<^verbatim>\<open>mergeRects(rectList, distance, horizontalDistance)\<close>. The surrounding \<^verbatim>\<open>try\<close> returns
  the empty list on an exception; none of the operations above throws on a \<^typ>\<open>rect\<close>.
\<close>

definition mergeRects :: "rect list \<Rightarrow> real \<Rightarrow> real option \<Rightarrow> rect list" where
  "mergeRects rectList distance horizontalDistance =
     (if rectList = [] then []
      else let validRects = filter isValidRect rectList in
           if validRects = [] then []
           else filter isValidRect (mergeLoop distance horizontalDistance validRects))"

text \<open>
  \<^verbatim>\<open>adsorbRectsToRects\<close>: the inner loop over the targets stops at the first near target
  and overwrites it with the union; it returns the targets and the \<^verbatim>\<open>adsorbed\<close> flag.
\<close>

fun tryAdsorb :: "real \<Rightarrow> rect \<Rightarrow> rect list \<Rightarrow> rect list \<times> bool" where
  "tryAdsorb distance rect [] = ([], False)"
| "tryAdsorb distance rect (t # ts) =
     (if isNear rect t distance then (unionRects rect t # ts, True)
      else (case tryAdsorb distance rect ts of (ts', adsorbed) \<Rightarrow> (t # ts', adsorbed)))"

fun adsorbLoop :: "real \<Rightarrow> rect list \<Rightarrow> rect list \<times> rect list \<Rightarrow> rect list \<times> rect list" where
  "adsorbLoop distance [] acc = acc"
| "adsorbLoop distance (rect # rest) (newSourceRects, updatedTargetRects) =
     (case tryAdsorb distance rect updatedTargetRects of
        (ts', adsorbed) \<Rightarrow>
          adsorbLoop distance rest
            (if adsorbed then newSourceRects else newSourceRects @ [rect], ts'))"

definition adsorbRectsToRects :: "rect list \<Rightarrow> rect list \<Rightarrow> real \<Rightarrow> rect list \<times> rect list" where
  "adsorbRectsToRects sourceRects targetRects distance =
     adsorbLoop distance sourceRects ([], targetRects)"

text \<open>The index of the first target, in scan order, that a source is near to.\<close>

fun first_near :: "real \<Rightarrow> rect \<Rightarrow> rect list \<Rightarrow> nat option" where
  "first_near distance s [] = None"
| "first_near distance s (t # ts) =
     (if isNear s t distance then Some 0 else map_option Suc (first_near distance s ts))"

text \<open>A list on which a pass of the merge loop has nothing to merge.\<close>

definition no_merge :: "real \<Rightarrow> real option \<Rightarrow> rect list \<Rightarrow> bool" where
  "no_merge d h ws = sorted_wrt (\<lambda>a b. \<not> shouldMerge d h a b) ws"

section \<open>Heading reconciliation (src/src/utils.ts)\<close>

text \<open>
  JavaScript strings are modelled as lists of 8-bit characters. In that range a regular
  expression's \<^verbatim>\<open>\s\<close> (and \<^verbatim>\<open>String.prototype.trim\<close>) takes tab, line feed, vertical
  tab, form feed, carriage return, space and no-break space for white space, and
  \<^verbatim>\<open>.\<close> matches every character but the line terminators: line feed and carriage return.
  (The other white-space characters and line terminators of JavaScript lie beyond the
  8-bit range.)
\<close>

definition isLineTerminator :: "char \<Rightarrow> bool" where
  "isLineTerminator c = (c = CHR 0x0A \<or> c = CHR 0x0D)"

definition isWhiteSpace :: "char \<Rightarrow> bool" where
  "isWhiteSpace c =
     (c = CHR 0x09 \<or> c = CHR 0x0A \<or> c = CHR 0x0B \<or> c = CHR 0x0C \<or> c = CHR 0x0D \<or>
      c = CHR 0x20 \<or> c = CHR 0xA0)"

definition trim :: "string \<Rightarrow> string" where
  "trim s = rev (dropWhile isWhiteSpace (rev (dropWhile isWhiteSpace s)))"

text \<open>\<^verbatim>\<open>s.split('\n')\<close> and \<^verbatim>\<open>lines.join('\n')\<close>.\<close>

fun split_nl :: "string \<Rightarrow> string list" where
  "split_nl [] = [[]]"
| "split_nl (c # cs) =
     (if c = CHR 0x0A then [] # split_nl cs
      else (case split_nl cs of [] \<Rightarrow> [[c]] | l # ls \<Rightarrow> (c # l) # ls))"

fun join_nl :: "string list \<Rightarrow> string" where
  "join_nl [] = []"
| "join_nl [l] = l"
| "join_nl (l # ls) = l @ CHR 0x0A # join_nl ls"

text \<open>
  The two heading patterns \<^verbatim>\<open>/^#+\s*(.*)/\<close> and \<^verbatim>\<open>/^(#+)\s*(.+)/\<close> differ in the last
  group only. A match takes \<open>n\<close> marker characters, then \<open>k\<close> white-space characters,
  then the longest run of characters that are not line terminators. The quantifiers are
  greedy and backtrack: the attempts are tried with \<open>n\<close> from the whole marker run down to
  1 and, for each \<open>n\<close>, with \<open>k\<close> from the whole white-space run down to 0; the first
  attempt that succeeds is the match. With \<^verbatim>\<open>(.*)\<close> every attempt succeeds, with \<^verbatim>\<open>(.+)\<close> an
  attempt fails when the captured run is empty. The result is the number of marker
  characters matched and the captured text.
\<close>

definition attempts :: "string \<Rightarrow> (nat \<times> nat) list" where
  "attempts line =
     concat (map (\<lambda>n. map (\<lambda>k. (n, k))
                         (rev [0 ..< Suc (length (takeWhile isWhiteSpace (drop n line)))]))
                 (rev [1 ..< Suc (length (takeWhile (\<lambda>c. c = CHR ''#'') line))]))"

definition attempt :: "bool \<Rightarrow> string \<Rightarrow> nat \<times> nat \<Rightarrow> (nat \<times> string) option" where
  "attempt nonEmpty line nk =
     (let captured = takeWhile (\<lambda>c. \<not> isLineTerminator c) (drop (fst nk + snd nk) line)
      in if nonEmpty \<and> captured = [] then None else Some (fst nk, captured))"

definition matchHeading :: "bool \<Rightarrow> string \<Rightarrow> (nat \<times> string) option" where
  "matchHeading nonEmpty line =
     (case List.map_filter (attempt nonEmpty line) (attempts line) of
        [] \<Rightarrow> None
      | m # _ \<Rightarrow> Some m)"

text \<open>\<^verbatim>\<open>createTitleLevelMap(data)\<close>: a later line with the same text overwrites the level.\<close>

fun titleLevelLoop :: "string list \<Rightarrow> (string \<rightharpoonup> nat) \<Rightarrow> (string \<rightharpoonup> nat)" where
  "titleLevelLoop [] m = m"
| "titleLevelLoop (line # lines) m =
     (case matchHeading True line of
        None \<Rightarrow> titleLevelLoop lines m
      | Some (level, text) \<Rightarrow> titleLevelLoop lines (m(trim text \<mapsto> level)))"

definition createTitleLevelMap :: "string \<Rightarrow> (string \<rightharpoonup> nat)" where
  "createTitleLevelMap data = titleLevelLoop (split_nl data) Map.empty"

text \<open>The body of the \<^verbatim>\<open>forEach\<close> of \<^verbatim>\<open>adjustMarkdownHeadings\<close>, for one line.\<close>

definition adjustLine :: "(string \<rightharpoonup> nat) \<Rightarrow> string \<Rightarrow> string" where
  "adjustLine m line =
     (case matchHeading False line of
        None \<Rightarrow> line
      | Some (n, content) \<Rightarrow>
          (case m content of
             None \<Rightarrow> line
           | Some level \<Rightarrow> replicate level (CHR ''#'') @ '' '' @ content))"

definition adjustMarkdownHeadings :: "string \<Rightarrow> string \<Rightarrow> string" where
  "adjustMarkdownHeadings markdownText newTitle =
     (let m = createTitleLevelMap newTitle;
          lines = split_nl markdownText
      in join_nl (map (adjustLine m) lines))"

text \<open>What \<^verbatim>\<open>adjustMarkdownHeadings\<close> looks up for a line: the capture of its pattern.\<close>

definition heading_text :: "string \<Rightarrow> string option" where
  "heading_text line = map_option snd (matchHeading False line)"

definition getOldMarkdownHeadings :: "string \<Rightarrow> string" where
  "getOldMarkdownHeadings markdownText =
     join_nl (filter (\<lambda>line. matchHeading False line \<noteq> None) (split_nl markdownText))"

text \<open>
  \<^verbatim>\<open>indexOf\<close>, \<^verbatim>\<open>lastIndexOf\<close> (-1 when the needle does not occur) and \<^verbatim>\<open>substring\<close>
  (each bound clamped to the string, the bounds swapped when the first is the larger).
\<close>

fun indexOf :: "string \<Rightarrow> string \<Rightarrow> int" where
  "indexOf [] needle = (if needle = [] then 0 else - 1)"
| "indexOf (c # cs) needle =
     (if take (length needle) (c # cs) = needle then 0
      else (let r = indexOf cs needle in if r = - 1 then - 1 else r + 1))"

fun lastIndexOf :: "string \<Rightarrow> string \<Rightarrow> int" where
  "lastIndexOf [] needle = (if needle = [] then 0 else - 1)"
| "lastIndexOf (c # cs) needle =
     (let r = lastIndexOf cs needle in
      if r \<noteq> - 1 then r + 1
      else if take (length needle) (c # cs) = needle then 0 else - 1)"

definition substring :: "string \<Rightarrow> int \<Rightarrow> int \<Rightarrow> string" where
  "substring s indexStart indexEnd =
     (let n = int (length s);
          a = max 0 (min indexStart n);
          b = max 0 (min indexEnd n);
          lo = min a b;
          hi = max a b
      in take (nat (hi - lo)) (drop (nat lo) s))"

definition extractMdFromLLMOutput :: "string \<Rightarrow> string option" where
  "extractMdFromLLMOutput output =
     (let mdStart = indexOf output ''```markdown'';
          mdEnd = lastIndexOf output ''```''
      in if mdStart \<noteq> - 1 \<and> mdEnd \<noteq> - 1
         then Some (substring output (mdStart + 12) mdEnd)
         else None)"


text \<open>
  The heading-correction step of \<^verbatim>\<open>parsePdf\<close>:
  \<^verbatim>\<open>adjustMarkdownHeadings(content, convertedTitle || '')\<close>, where \<^verbatim>\<open>convertedTitle\<close> is what
  \<^verbatim>\<open>extractMdFromLLMOutput\<close> made of the model's response.
\<close>

definition correctHeadings :: "string \<Rightarrow> string \<Rightarrow> string" where
  "correctHeadings content convertedTitleLLMResult =
     adjustMarkdownHeadings content
       (case extractMdFromLLMOutput convertedTitleLLMResult of
          None \<Rightarrow> []
        | Some convertedTitle \<Rightarrow> convertedTitle)"

subsection \<open>Notions of the specification\<close>

text \<open>
  A heading entry, in the specification's words: a line that begins with a run of
  markers, with the number of markers as its level and the trimmed content after the
  marker run as its text. The texts of an outline are the texts of its heading entries.
\<close>

definition spec_heading_entry :: "string \<Rightarrow> (nat \<times> string) option" where
  "spec_heading_entry line =
     (let markers = takeWhile (\<lambda>c. c = CHR ''#'') line in
      if markers = [] then None
      else Some (length markers, trim (drop (length markers) line)))"

definition spec_outline_texts :: "string \<Rightarrow> string set" where
  "spec_outline_texts outline =
     set (List.map_filter (\<lambda>line. map_option snd (spec_heading_entry line))
            (split_nl outline))"

text \<open>
  A plain line holds no carriage return and, when it begins with a marker, has more
  than white space after the marker run.
\<close>

definition plain_line :: "string \<Rightarrow> bool" where
  "plain_line line =
     (CHR 0x0D \<notin> set line \<and>
      (line = [] \<or> hd line \<noteq> CHR ''#'' \<or>
       dropWhile isWhiteSpace (dropWhile (\<lambda>c. c = CHR ''#'') line) \<noteq> []))"

text \<open>
  A response contains a fenced markdown block when the opening delimiter occurs at some
  position and a closing delimiter occurs behind it.
\<close>

definition occurs_at :: "string \<Rightarrow> string \<Rightarrow> nat \<Rightarrow> bool" where
  "occurs_at s needle i = (take (length needle) (drop i s) = needle)"

definition has_fenced_block :: "string \<Rightarrow> bool" where
  "has_fenced_block s =
     list_ex (\<lambda>i. occurs_at s ''```markdown'' i \<and>
                  list_ex (\<lambda>j. i + 11 \<le> j \<and> occurs_at s ''```'' j) [0 ..< Suc (length s)])
       [0 ..< Suc (length s)]"

section \<open>The bounded-concurrency pipeline (src/src/index.ts)\<close>

record PageImage =
  index :: int
  data :: string

record PageContent =
  pageIndex :: int
  content :: string

datatype taskStatus = starting | running | finished

record ProgressInfo =
  current :: nat
  total :: nat
  taskStatus :: taskStatus

text \<open>
  \<^verbatim>\<open>parsePdf\<close> runs on one thread. The code of \<^verbatim>\<open>processInParallel\<close> runs from one
  \<^verbatim>\<open>await\<close> to the next without interruption; while it is suspended in
  \<^verbatim>\<open>await Promise.race(inProgress)\<close>, the continuations of the page invocations run, one
  at a time, in an order the program does not control. The state below holds the
  variables of \<^verbatim>\<open>processInParallel\<close> and of the closure \<^verbatim>\<open>processImages\<close>, the calls of
  \<^verbatim>\<open>onProgress\<close> made so far, and where the loop stands. An invocation is named by its
  position in the array \<^verbatim>\<open>results\<close>, that is the number of invocations started before it.

  The concurrency limit is a number of invocations, a natural number. The process
  function is \<^verbatim>\<open>processImages\<close>, the only one \<^verbatim>\<open>parsePdf\<close> passes: its body is wrapped in
  \<^verbatim>\<open>try\<close>/\<^verbatim>\<open>catch\<close>, so a failed call of the model ends the invocation with a failure
  marker and the promise of the invocation is fulfilled all the same.
\<close>

datatype control =
    Running
  | Waiting bool
  | Done

text \<open>
  \<open>Waiting settled\<close>: the loop is suspended in \<^verbatim>\<open>await Promise.race(inProgress)\<close>;
  \<open>settled\<close> tells whether one of the raced promises has been fulfilled since.

  \<open>started\<close> lists the items whose invocation has begun, in the order of \<^verbatim>\<open>results\<close>.
  \<open>pending\<close> holds the invocations whose call of the model has not returned: the
  unsettled invocations of the process function. \<open>awaitingThen\<close> holds the invocations
  that have returned and whose \<^verbatim>\<open>then\<close> callback has not run yet.
\<close>

record sched =
  imageFiles :: "PageImage list"
  concurrencyLimit :: nat
  queue :: "PageImage list"
  started :: "PageImage list"
  pending :: "nat list"
  awaitingThen :: "nat list"
  inProgress :: "nat list"
  pageContents :: "PageContent list"
  progress :: "ProgressInfo list"
  pc :: control

text \<open>
  The state in which \<^verbatim>\<open>parsePdf\<close> calls \<^verbatim>\<open>processInParallel\<close>: the report with status
  \<^verbatim>\<open>starting\<close> has been made, nothing has been started.
\<close>

definition init :: "PageImage list \<Rightarrow> nat \<Rightarrow> sched" where
  "init items limit =
     \<lparr>imageFiles = items, concurrencyLimit = limit, queue = items, started = [],
      pending = [], awaitingThen = [], inProgress = [], pageContents = [],
      progress = [\<lparr>current = 0, total = length items, taskStatus = starting\<rparr>],
      pc = Running\<rparr>"

text \<open>
  What happens next is one of three events: the loop of \<^verbatim>\<open>processInParallel\<close> takes its
  next step; the model's answer for invocation \<open>k\<close> arrives (\<open>Some\<close> text, or \<open>None\<close> when
  the call fails) and \<^verbatim>\<open>processImages\<close> runs to its end; the \<^verbatim>\<open>then\<close> callback of
  invocation \<open>k\<close> runs.
\<close>

datatype event =
    Loop
  | ModelReturns nat "string option"
  | ThenCallback nat

text \<open>
  One step of the two nested \<^verbatim>\<open>while\<close> loops. The last branch is the outer loop going
  round without starting or awaiting anything, which happens with a limit of 0 only.
\<close>

definition loopStep :: "sched \<Rightarrow> sched option" where
  "loopStep s =
     (case pc s of
        Done \<Rightarrow> None
      | Waiting settled \<Rightarrow> if settled then Some (s\<lparr>pc := Running\<rparr>) else None
      | Running \<Rightarrow>
          if queue s = [] \<and> inProgress s = [] then Some (s\<lparr>pc := Done\<rparr>)
          else if length (inProgress s) < concurrencyLimit s \<and> queue s \<noteq> [] then
            (case queue s of
               [] \<Rightarrow> None
             | item # rest \<Rightarrow>
                 Some (s\<lparr>queue := rest,
                         started := started s @ [item],
                         pending := pending s @ [length (started s)],
                         inProgress := inProgress s @ [length (started s)]\<rparr>))
          else if inProgress s \<noteq> [] then Some (s\<lparr>pc := Waiting False\<rparr>)
          else Some s)"

text \<open>
  The rest of \<^verbatim>\<open>processImages\<close> after \<^verbatim>\<open>await modelClient.processImage(...)\<close>: on success
  the page content is pushed and \<^verbatim>\<open>onProgress\<close> is called with the new length; on failure
  the \<^verbatim>\<open>catch\<close> logs and returns the failure marker. In both cases the promise of the
  invocation is fulfilled.
\<close>

definition processImagesReturns :: "nat \<Rightarrow> string option \<Rightarrow> sched \<Rightarrow> sched" where
  "processImagesReturns k answer s =
     (case answer of
        None \<Rightarrow> s
      | Some pageContent \<Rightarrow>
          (let pcs = pageContents s @
                       [\<lparr>pageIndex = index (started s ! k), content = pageContent\<rparr>]
           in s\<lparr>pageContents := pcs,
                progress := progress s @
                  [\<lparr>current = length pcs, total = length (imageFiles s),
                    taskStatus = running\<rparr>]\<rparr>))"

definition is_waiting :: "sched \<Rightarrow> bool" where
  "is_waiting s = (case pc s of Waiting settled \<Rightarrow> True | _ \<Rightarrow> False)"

fun step :: "event \<Rightarrow> sched \<Rightarrow> sched option" where
  "step Loop s = loopStep s"
| "step (ModelReturns k answer) s =
     (if is_waiting s \<and> k \<in> set (pending s)
      then Some ((processImagesReturns k answer s)
                   \<lparr>pending := remove1 k (pending s),
                    awaitingThen := awaitingThen s @ [k]\<rparr>)
      else None)"
| "step (ThenCallback k) s =
     (if is_waiting s \<and> k \<in> set (awaitingThen s)
      then Some (s\<lparr>awaitingThen := remove1 k (awaitingThen s),
                   inProgress := remove1 k (inProgress s),
                   pc := Waiting True\<rparr>)
      else None)"

fun exec :: "event list \<Rightarrow> sched \<Rightarrow> sched option" where
  "exec [] s = Some s"
| "exec (e # es) s = (case step e s of None \<Rightarrow> None | Some s' \<Rightarrow> exec es s')"

text \<open>
  After \<^verbatim>\<open>processInParallel\<close>: sort by \<^verbatim>\<open>pageIndex\<close> (\<^verbatim>\<open>Array.prototype.sort\<close> is stable),
  concatenate each page's content and a line feed.
\<close>

definition assemble :: "PageContent list \<Rightarrow> string" where
  "assemble pcs = concat (map (\<lambda>page. content page @ [CHR 0x0A]) (sort_key pageIndex pcs))"

text \<open>
  The rest of \<^verbatim>\<open>parsePdf\<close>: the outline is sent to the model (the call may fail), the
  headings are corrected, the file is written (which may fail), and only then the report
  with status \<^verbatim>\<open>finished\<close> is made. An error is rethrown to the caller. The result holds
  what the caller gets and every call of \<^verbatim>\<open>onProgress\<close>.
\<close>

datatype parse_error = ModelCallFailed | WriteFailed

record ParseOutcome =
  returned :: "parse_error + string"
  written :: "string option"
  reports :: "ProgressInfo list"

definition finishParsePdf :: "sched \<Rightarrow> string option \<Rightarrow> bool \<Rightarrow> ParseOutcome" where
  "finishParsePdf s convertedTitleLLMResult writeOk =
     (let content = assemble (pageContents s) in
      case convertedTitleLLMResult of
        None \<Rightarrow> \<lparr>returned = Inl ModelCallFailed, written = None, reports = progress s\<rparr>
      | Some response \<Rightarrow>
          (let convertContent = correctHeadings content response in
           if \<not> writeOk
           then \<lparr>returned = Inl WriteFailed, written = None, reports = progress s\<rparr>
           else \<lparr>returned = Inr content, written = Some convertContent,
                 reports = progress s @
                   [\<lparr>current = length (imageFiles s), total = length (imageFiles s),
                     taskStatus = finished\<rparr>]\<rparr>))"

definition page :: "int \<Rightarrow> PageImage" where
  "page i = \<lparr>index = i, data = []\<rparr>"

text \<open>The results collection as a run's events fill it: one entry per successful answer.\<close>

definition completion :: "PageImage list \<Rightarrow> event \<Rightarrow> PageContent option" where
  "completion items e =
     (case e of
        ModelReturns k (Some pageContent) \<Rightarrow>
          Some \<lparr>pageIndex = index (items ! k), content = pageContent\<rparr>
      | _ \<Rightarrow> None)"

definition completions :: "PageImage list \<Rightarrow> event list \<Rightarrow> PageContent list" where
  "completions items evs = List.map_filter (completion items) evs"

subsection \<open>Invariants and the step budget\<close>

text \<open>The bookkeeping of the invocations.\<close>

definition ids_ok :: "sched \<Rightarrow> bool" where
  "ids_ok s \<longleftrightarrow>
     started s @ queue s = imageFiles s \<and>
     distinct (inProgress s) \<and>
     set (inProgress s) = set (pending s) \<union> set (awaitingThen s) \<and>
     distinct (pending s @ awaitingThen s) \<and>
     (\<forall>k \<in> set (inProgress s). k < length (started s)) \<and>
     length (inProgress s) \<le> concurrencyLimit s \<and>
     (pc s = Waiting False \<longrightarrow> inProgress s \<noteq> []) \<and>
     (pc s = Done \<longrightarrow> queue s = [] \<and> inProgress s = [])"

text \<open>What the results collection and the progress reports hold.\<close>

definition running_reports :: "nat \<Rightarrow> nat \<Rightarrow> ProgressInfo list" where
  "running_reports n done =
     map (\<lambda>c. \<lparr>current = c, total = n, taskStatus = running\<rparr>) [1 ..< Suc done]"

definition results_ok :: "sched \<Rightarrow> bool" where
  "results_ok s \<longleftrightarrow>
     length (pageContents s) + length (pending s) \<le> length (started s) \<and>
     progress s =
       \<lparr>current = 0, total = length (imageFiles s), taskStatus = starting\<rparr> #
       running_reports (length (imageFiles s)) (length (pageContents s)) \<and>
     (\<forall>p \<in> set (pageContents s).
        \<exists>k < length (started s). k \<notin> set (pending s) \<and> pageIndex p = index (started s ! k)) \<and>
     (distinct (map index (imageFiles s)) \<longrightarrow> distinct (map pageIndex (pageContents s)))"

text \<open>
  Every step uses up part of a budget that starts at \<open>5 * N + 1\<close>, so a run has at most
  that many steps.
\<close>

fun pc_weight :: "control \<Rightarrow> nat" where
  "pc_weight Running = 1"
| "pc_weight (Waiting settled) = (if settled then 2 else 0)"
| "pc_weight Done = 0"

definition budget :: "sched \<Rightarrow> nat" where
  "budget s =
     5 * length (queue s) + 4 * length (pending s) + 3 * length (awaitingThen s) +
     pc_weight (pc s)"

section \<open>Properties of the geometry primitives\<close>

lemma axis_gap_code:
  assumes "lo1 \<le> hi1" "lo2 \<le> hi2"
  shows "axis_gap lo1 hi1 lo2 hi2 =
    (if hi1 < lo2 then lo2 - hi1 else if hi2 < lo1 then lo1 - hi2 else 0)"
  using assms by (auto simp: axis_gap_def intervals_overlap_def)

lemma axis_gap_nonneg: "0 \<le> axis_gap lo1 hi1 lo2 hi2"
  by (auto simp: axis_gap_def intervals_overlap_def)

lemma axis_gap_pos:
  "\<not> intervals_overlap lo1 hi1 lo2 hi2 \<Longrightarrow> 0 < axis_gap lo1 hi1 lo2 hi2"
  by (auto simp: axis_gap_def intervals_overlap_def)

lemma ordered_createRect: "ordered_corners (createRect x0 y0 x1 y1) \<longleftrightarrow> x0 \<le> x1 \<and> y0 \<le> y1"
  by (simp add: ordered_corners_def createRect_def bboxPolygon_def)

lemma gap_x_code:
  "ordered_corners a \<Longrightarrow> ordered_corners b \<Longrightarrow> gap_x a b = code_dx a b"
  unfolding gap_x_def code_dx_def Let_def ordered_corners_def
  by (intro axis_gap_code) simp_all

lemma gap_y_code:
  "ordered_corners a \<Longrightarrow> ordered_corners b \<Longrightarrow> gap_y a b = code_dy a b"
  unfolding gap_y_def code_dy_def Let_def ordered_corners_def
  by (intro axis_gap_code) simp_all

lemma getDistance_code:
  "getDistance a b buffer =
     (if overlap_x a b \<and> overlap_y a b then 0
      else sqrt (code_dx a b * code_dx a b + code_dy a b * code_dy a b) - buffer * 2)"
  by (simp add: getDistance_def code_dx_def code_dy_def Let_def overlap_x_def overlap_y_def
      intervals_overlap_def)

lemma getDistance_eq_spec:
  "ordered_corners a \<Longrightarrow> ordered_corners b \<Longrightarrow>
     getDistance a b buffer = spec_distance a b buffer"
  by (simp add: getDistance_code spec_distance_def gap_x_code gap_y_code mult.commute)

lemma getDistance_negative_example:
  "ordered_corners (createRect 0 0 1 1) \<and> ordered_corners (createRect (11 / 10) 0 2 1) \<and>
   \<not> overlap_x (createRect 0 0 1 1) (createRect (11 / 10) 0 2 1) \<and>
   getDistance (createRect 0 0 1 1) (createRect (11 / 10) 0 2 1) (1 / 10) = - (1 / 10)"
proof -
  have "sqrt ((1 / 10) * (1 / 10)) = (1 / 10 :: real)"
    by (simp only: real_sqrt_abs2)
  then have "sqrt (1 / 100) = (1 / 10 :: real)" by simp
  then show ?thesis
    by (simp add: getDistance_def createRect_def bboxPolygon_def overlap_x_def
        intervals_overlap_def ordered_corners_def)
qed

text \<open>
  Without ordered corners the distance is not the one the specification words: the boxes
  of \<^verbatim>\<open>createRect([10, 10, 0, 0])\<close> and \<^verbatim>\<open>createRect([20, 0, 30, 10])\<close> are 10 apart, and
  \<open>getDistance\<close> with buffer 0 is 20.
\<close>

lemma getDistance_unordered_example:
  "getDistance (createRect 10 10 0 0) (createRect 20 0 30 10) 0 = 20"
proof -
  have "sqrt (20 * 20) = (20 :: real)" by (simp only: real_sqrt_abs2)
  then have "sqrt 400 = (20 :: real)" by simp
  then show ?thesis
    by (simp add: getDistance_def createRect_def bboxPolygon_def)
qed

text \<open>
  Claim C4. For all rectangles \<open>a\<close>, \<open>b\<close> that are valid in that their corners are
  ordered (\<open>x0 \<le> x1\<close>, \<open>y0 \<le> y1\<close>) and every buffer, \<open>getDistance a b buffer\<close> is exactly
  0 when the boxes overlap on both axes, and otherwise the Euclidean norm of the per-axis
  gaps (0 on an axis where the intervals overlap, the positive separation otherwise)
  minus twice the buffer; the gaps are never negative, and a pair of valid boxes 0.1
  apart gives the negative distance -0.1 under the default buffer.
\<close>

theorem getDistance_spec:
  assumes "ordered_corners a" and "ordered_corners b"
  shows "getDistance a b buffer = spec_distance a b buffer \<and>
   spec_distance a b buffer =
     (if overlap_x a b \<and> overlap_y a b then 0
      else sqrt (gap_x a b * gap_x a b + gap_y a b * gap_y a b) - 2 * buffer) \<and>
   0 \<le> gap_x a b \<and> 0 \<le> gap_y a b \<and>
   (gap_x a b = 0) = overlap_x a b \<and> (gap_y a b = 0) = overlap_y a b \<and>
   (\<exists>u v. ordered_corners u \<and> ordered_corners v \<and>
          \<not> (overlap_x u v \<and> overlap_y u v) \<and> getDistance u v (1 / 10) < 0)"
proof -
  have eq: "getDistance a b buffer = spec_distance a b buffer"
    using assms by (rule getDistance_eq_spec)
  have nn: "0 \<le> gap_x a b" "0 \<le> gap_y a b"
    by (simp_all add: gap_x_def gap_y_def axis_gap_nonneg)
  have zx: "(gap_x a b = 0) = overlap_x a b"
    using axis_gap_pos [of "b0 (turf_bbox a)" "b2 (turf_bbox a)" "b0 (turf_bbox b)" "b2 (turf_bbox b)"]
    by (auto simp: gap_x_def overlap_x_def axis_gap_def)
  have zy: "(gap_y a b = 0) = overlap_y a b"
    using axis_gap_pos [of "b1 (turf_bbox a)" "b3 (turf_bbox a)" "b1 (turf_bbox b)" "b3 (turf_bbox b)"]
    by (auto simp: gap_y_def overlap_y_def axis_gap_def)
  have ex: "\<exists>u v. ordered_corners u \<and> ordered_corners v \<and>
      \<not> (overlap_x u v \<and> overlap_y u v) \<and> getDistance u v (1 / 10) < 0"
    using getDistance_negative_example
    by (intro exI [of _ "createRect 0 0 1 1"] exI [of _ "createRect (11 / 10) 0 2 1"]) simp
  show ?thesis using eq nn zx zy ex by (simp add: spec_distance_def)
qed

theorem getDistance_spec_witness:
  "ordered_corners (createRect 10 10 30 20) \<and> ordered_corners (createRect 33 24 50 40) \<and>
   \<not> overlap_x (createRect 10 10 30 20) (createRect 33 24 50 40) \<and>
   gap_x (createRect 10 10 30 20) (createRect 33 24 50 40) = 3 \<and>
   gap_y (createRect 10 10 30 20) (createRect 33 24 50 40) = 4 \<and>
   getDistance (createRect 10 10 30 20) (createRect 33 24 50 40) (1 / 10) = 5 - 1 / 5 \<and>
   getDistance (createRect 10 10 30 20) (createRect 12 12 50 40) (1 / 10) = 0"
proof -
  let ?a = "createRect 10 10 30 20" and ?b = "createRect 33 24 50 40"
  let ?c = "createRect 12 12 50 40"
  have oa: "ordered_corners ?a" and ob: "ordered_corners ?b" and oc: "ordered_corners ?c"
    by (simp_all add: ordered_createRect)
  have nx: "\<not> overlap_x ?a ?b"
    by (simp add: overlap_x_def intervals_overlap_def createRect_def bboxPolygon_def)
  have ov: "overlap_x ?a ?c \<and> overlap_y ?a ?c"
    by (simp add: overlap_x_def overlap_y_def intervals_overlap_def createRect_def
        bboxPolygon_def)
  have gx: "gap_x ?a ?b = 3"
    by (simp add: gap_x_def axis_gap_def intervals_overlap_def createRect_def bboxPolygon_def)
  have gy: "gap_y ?a ?b = 4"
    by (simp add: gap_y_def axis_gap_def intervals_overlap_def createRect_def bboxPolygon_def)
  have "sqrt (5 * 5) = (5 :: real)" by (simp only: real_sqrt_abs2)
  then have sq: "sqrt 25 = (5 :: real)" by simp
  have d1: "getDistance ?a ?b (1 / 10) = 5 - 1 / 5"
    using getDistance_spec [OF oa ob, of "1 / 10"] nx by (simp add: gx gy sq)
  have d2: "getDistance ?a ?c (1 / 10) = 0"
    using getDistance_spec [OF oa oc, of "1 / 10"] ov by simp
  show ?thesis by (intro conjI) (rule oa ob nx gx gy d1 d2)+
qed

lemma sqrt_less_iff_sq:
  fixes s y :: real
  assumes "0 \<le> s"
  shows "sqrt s < y \<longleftrightarrow> 0 < y \<and> s < y * y"
proof
  assume l: "sqrt s < y"
  have nn: "0 \<le> sqrt s" using assms by simp
  then have "0 < y" using l by linarith
  moreover have "sqrt s * sqrt s < y * y"
    using l nn by (intro mult_strict_mono') simp_all
  ultimately show "0 < y \<and> s < y * y" using assms by simp
next
  assume "0 < y \<and> s < y * y"
  then show "sqrt s < y"
    by (intro real_less_lsqrt) (simp_all add: power2_eq_square)
qed

text \<open>A square-root-free form of the near test, used to evaluate it on concrete boxes.\<close>

lemma isNear_iff:
  "isNear a b d \<longleftrightarrow>
     (if overlap_x a b \<and> overlap_y a b then 0 < d
      else 0 < d + 1 / 5 \<and>
           code_dx a b * code_dx a b + code_dy a b * code_dy a b < (d + 1 / 5) * (d + 1 / 5))"
proof -
  have nn: "0 \<le> code_dx a b * code_dx a b + code_dy a b * code_dy a b" by simp
  show ?thesis
    unfolding isNear_def getDistance_code
    using sqrt_less_iff_sq [OF nn, of "d + 1 / 5"] by auto
qed

lemma overlap_x_sym: "overlap_x a b = overlap_x b a"
  by (auto simp: overlap_x_def intervals_overlap_def)

lemma overlap_y_sym: "overlap_y a b = overlap_y b a"
  by (auto simp: overlap_y_def intervals_overlap_def)

lemma gap_x_sym: "gap_x a b = gap_x b a"
  by (auto simp: gap_x_def axis_gap_def intervals_overlap_def max.commute)

lemma gap_y_sym: "gap_y a b = gap_y b a"
  by (auto simp: gap_y_def axis_gap_def intervals_overlap_def max.commute)

text \<open>On rectangles with ordered corners the near test is symmetric.\<close>

lemma isNear_sym:
  assumes "ordered_corners a" and "ordered_corners b"
  shows "isNear a b d = isNear b a d"
proof -
  have "code_dx a b = code_dx b a" "code_dy a b = code_dy b a"
    using gap_x_code [OF assms] gap_x_code [OF assms(2) assms(1)]
      gap_y_code [OF assms] gap_y_code [OF assms(2) assms(1)]
      gap_x_sym [of a b] gap_y_sym [of a b] by simp_all
  then show ?thesis
    unfolding isNear_iff
    by (simp add: overlap_x_sym [of a b] overlap_y_sym [of a b])
qed

lemma ordered_unionRects:
  "ordered_corners a \<Longrightarrow> ordered_corners (unionRects a b)"
  by (auto simp: ordered_corners_def unionRects_def bboxPolygon_def Let_def)

lemma turf_bbox_unionRects:
  "turf_bbox (unionRects s t) =
     \<lparr>b0 = min (b0 (turf_bbox s)) (b0 (turf_bbox t)),
      b1 = min (b1 (turf_bbox s)) (b1 (turf_bbox t)),
      b2 = max (b2 (turf_bbox s)) (b2 (turf_bbox t)),
      b3 = max (b3 (turf_bbox s)) (b3 (turf_bbox t))\<rparr>"
  by (simp add: unionRects_def bboxPolygon_def Let_def)

section \<open>Properties of the clustering engine\<close>

lemma scanOthers_none:
  "\<forall>x \<in> set rs. \<not> shouldMerge d h r x \<Longrightarrow> scanOthers d h r rs = (r, rs, False)"
  by (induction rs) auto

lemma scanOthers_False:
  "scanOthers d h r rs = (r', kept, False) \<Longrightarrow>
     r' = r \<and> kept = rs \<and> (\<forall>x \<in> set rs. \<not> shouldMerge d h r x)"
proof (induction rs arbitrary: kept)
  case Nil
  then show ?case by simp
next
  case (Cons a rs)
  from Cons.prems have nm: "\<not> shouldMerge d h r a"
    by (auto split: if_splits prod.splits)
  then obtain k' where e: "scanOthers d h r rs = (r', k', False)" "kept = a # k'"
    using Cons.prems by (auto split: prod.splits)
  from Cons.IH [OF e(1)] e(2) nm show ?case by simp
qed

lemma mergePass_no_merge: "no_merge d h ws \<Longrightarrow> mergePass d h ws = (ws, False)"
  by (induction ws) (simp_all add: no_merge_def scanOthers_none)

lemma mergePass_False: "mergePass d h ws = (out, False) \<Longrightarrow> out = ws \<and> no_merge d h ws"
proof (induction d h ws arbitrary: out rule: mergePass.induct)
  case (1 d h)
  then show ?case by (simp add: no_merge_def)
next
  case (2 d h rect workingRects)
  obtain r kept m where s: "scanOthers d h rect workingRects = (r, kept, m)"
    by (metis prod_cases3)
  obtain out' m' where p: "mergePass d h kept = (out', m')"
    by (cases "mergePass d h kept") auto
  from "2.prems" s p have flags: "m = False" "m' = False" and out: "out = r # out'"
    by simp_all
  from scanOthers_False [of d h rect workingRects r kept] s flags
  have sc: "r = rect" "kept = workingRects" "\<forall>x \<in> set workingRects. \<not> shouldMerge d h rect x"
    by simp_all
  from "2.IH" [OF s [symmetric] refl, of out'] p flags
  have ih: "out' = kept" "no_merge d h kept" by simp_all
  show ?case using out sc ih by (simp add: no_merge_def)
qed

lemma mergeLoop_Nil: "mergeLoop d h [] = []"
  by (simp add: mergeLoop.simps [of d h "[]"])

lemma mergeLoop_no_merge: "no_merge d h (mergeLoop d h ws)"
proof (induction d h ws rule: mergeLoop.induct)
  case (1 d h workingRects)
  show ?case
  proof (cases "workingRects = []")
    case True
    then show ?thesis by (simp add: mergeLoop_Nil no_merge_def)
  next
    case False
    obtain out m where p: "mergePass d h workingRects = (out, m)"
      by (cases "mergePass d h workingRects") auto
    show ?thesis
    proof (cases m)
      case True
      with "1.IH" [OF False p [symmetric]] False p show ?thesis
        by (simp add: mergeLoop.simps [of d h workingRects])
    next
      case False
      with mergePass_False [of d h workingRects out] p \<open>workingRects \<noteq> []\<close> show ?thesis
        by (simp add: mergeLoop.simps [of d h workingRects])
    qed
  qed
qed

lemma mergeLoop_fixed: "no_merge d h ws \<Longrightarrow> mergeLoop d h ws = ws"
  by (simp add: mergeLoop.simps [of d h ws] mergePass_no_merge)

lemma no_merge_filter: "no_merge d h ws \<Longrightarrow> no_merge d h (filter P ws)"
  by (simp add: no_merge_def sorted_wrt_filter)

lemma mergeRects_no_merge: "no_merge d h (mergeRects R d h)"
  by (simp add: mergeRects_def Let_def no_merge_filter mergeLoop_no_merge)
     (simp add: no_merge_def)

lemma mergeRects_valid: "filter isValidRect (mergeRects R d h) = mergeRects R d h"
  by (simp add: mergeRects_def Let_def)

text \<open>
  Claim C3. For every rectangle list \<open>R\<close> and every distance threshold \<open>d\<close> (and every
  horizontal threshold \<open>h\<close>, absent or given), merging the output of \<open>mergeRects\<close> again
  gives the same list: the same rectangles in the same order.
\<close>

theorem mergeRects_idempotent:
  "mergeRects (mergeRects R d h) d h = mergeRects R d h"
proof -
  let ?W = "mergeRects R d h"
  have v: "filter isValidRect ?W = ?W" by (rule mergeRects_valid)
  have l: "mergeLoop d h ?W = ?W" by (rule mergeLoop_fixed) (rule mergeRects_no_merge)
  show ?thesis
  proof (cases "?W = []")
    case True
    then show ?thesis by (simp add: mergeRects_def [of "[]"])
  next
    case False
    then show ?thesis
      unfolding mergeRects_def [of ?W] Let_def v l by (simp add: v)
  qed
qed

lemmas rect_eval =
  isNear_iff overlap_x_def overlap_y_def intervals_overlap_def code_dx_def code_dy_def
  createRect_def bboxPolygon_def unionRects_def shouldMerge_def

lemma mergeRects_far_apart:
  "mergeRects [createRect 100 100 120 120, createRect 200 200 220 220] 5 None =
     [createRect 100 100 120 120, createRect 200 200 220 220]"
  by (simp add: mergeRects_def mergeLoop.simps rect_eval)

lemma mergeRects_close:
  "mergeRects [createRect 10 10 30 20, createRect 32 12 50 22] 5 None =
     [createRect 10 10 50 22]"
  by (simp add: mergeRects_def mergeLoop.simps rect_eval)

lemma mergeRects_merges_then_stops:
  "mergeRects [createRect 10 10 30 20, createRect 32 12 50 22, createRect 100 100 120 120]
     5 None =
     [createRect 10 10 50 22, createRect 100 100 120 120]"
  by (simp add: mergeRects_def mergeLoop.simps rect_eval)

lemma mergeRects_later_not_near:
  assumes "i < j" "j < length (mergeRects R d None)"
  shows "\<not> isNear (mergeRects R d None ! i) (mergeRects R d None ! j) d"
proof -
  have "sorted_wrt (\<lambda>a b. \<not> isNear a b d) (mergeRects R d None)"
    using mergeRects_no_merge [of d None R] by (simp add: no_merge_def shouldMerge_def)
  then show ?thesis using assms by (simp add: sorted_wrt_iff_nth_less)
qed

text \<open>Merging keeps the corners ordered.\<close>

lemma scanOthers_ordered:
  "ordered_corners rect \<Longrightarrow> \<forall>x \<in> set rs. ordered_corners x \<Longrightarrow>
   scanOthers d h rect rs = (r, kept, m) \<Longrightarrow>
     ordered_corners r \<and> (\<forall>x \<in> set kept. ordered_corners x)"
proof (induction rs arbitrary: rect r kept m)
  case Nil
  then show ?case by simp
next
  case (Cons a rs)
  from Cons.prems(2) have rs: "\<forall>x \<in> set rs. ordered_corners x" and oa: "ordered_corners a"
    by simp_all
  show ?case
  proof (cases "shouldMerge d h rect a")
    case True
    obtain r' k' m' where e: "scanOthers d h (unionRects rect a) rs = (r', k', m')"
      by (metis prod_cases3)
    with True Cons.prems(3) have "r = r'" "kept = k'" by simp_all
    with Cons.IH [OF ordered_unionRects [OF Cons.prems(1)] rs e] show ?thesis by simp
  next
    case False
    obtain r' k' m' where e: "scanOthers d h rect rs = (r', k', m')"
      by (metis prod_cases3)
    with False Cons.prems(3) have "r = r'" "kept = a # k'" by simp_all
    with Cons.IH [OF Cons.prems(1) rs e] oa show ?thesis by simp
  qed
qed

lemma mergePass_ordered:
  "\<forall>x \<in> set ws. ordered_corners x \<Longrightarrow> \<forall>x \<in> set (fst (mergePass d h ws)). ordered_corners x"
proof (induction d h ws rule: mergePass.induct)
  case (1 d h)
  show ?case by simp
next
  case (2 d h rect workingRects)
  obtain r kept m where s: "scanOthers d h rect workingRects = (r, kept, m)"
    by (metis prod_cases3)
  obtain out m' where p: "mergePass d h kept = (out, m')"
    by (cases "mergePass d h kept") auto
  from "2.prems" have o: "ordered_corners rect" "\<forall>x \<in> set workingRects. ordered_corners x"
    by simp_all
  from scanOthers_ordered [OF o s]
  have so: "ordered_corners r" "\<forall>x \<in> set kept. ordered_corners x" by simp_all
  from "2.IH" [OF s [symmetric] refl so(2)] p have "\<forall>x \<in> set out. ordered_corners x" by simp
  with so(1) s p show ?case by simp
qed

lemma mergeLoop_ordered:
  "\<forall>x \<in> set ws. ordered_corners x \<Longrightarrow> \<forall>x \<in> set (mergeLoop d h ws). ordered_corners x"
proof (induction d h ws rule: mergeLoop.induct)
  case (1 d h workingRects)
  show ?case
  proof (cases "workingRects = []")
    case True
    then show ?thesis by (simp add: mergeLoop_Nil)
  next
    case False
    obtain out m where p: "mergePass d h workingRects = (out, m)"
      by (cases "mergePass d h workingRects") auto
    from mergePass_ordered [OF "1.prems", of d h] p
    have oo: "\<forall>x \<in> set out. ordered_corners x" by simp
    show ?thesis
    proof (cases m)
      case True
      with "1.IH" [OF False p [symmetric] _ oo] False p show ?thesis
        by (simp add: mergeLoop.simps [of d h workingRects])
    next
      case nm: False
      with False p oo show ?thesis
        by (simp add: mergeLoop.simps [of d h workingRects])
    qed
  qed
qed

lemma mergeRects_ordered:
  "\<forall>x \<in> set R. ordered_corners x \<Longrightarrow> \<forall>x \<in> set (mergeRects R d h). ordered_corners x"
proof -
  assume o: "\<forall>x \<in> set R. ordered_corners x"
  then have "\<forall>x \<in> set (filter isValidRect R). ordered_corners x" by simp
  from mergeLoop_ordered [OF this, of d h] show ?thesis
    by (simp add: mergeRects_def Let_def)
qed

text \<open>
  Claim C9 fails as stated. The boxes of \<^verbatim>\<open>createRect([10, 0, 0, 10])\<close> and
  \<^verbatim>\<open>createRect([30, 0, 5, 10])\<close> have their first corner to the right of the second. Both
  pass \<open>isValidRect\<close>; the first is not near the second (distance 29.8), so the pass
  merges nothing and \<open>mergeRects\<close> returns both; but the second is near the first
  (distance 4.8, threshold 5).
\<close>

theorem mergeRects_flipped_counterexample:
  "mergeRects [createRect 10 0 0 10, createRect 30 0 5 10] 5 None =
     [createRect 10 0 0 10, createRect 30 0 5 10] \<and>
   createRect 30 0 5 10 \<noteq> createRect 10 0 0 10 \<and>
   isNear (mergeRects [createRect 10 0 0 10, createRect 30 0 5 10] 5 None ! 1)
          (mergeRects [createRect 10 0 0 10, createRect 30 0 5 10] 5 None ! 0) 5"
proof -
  let ?A = "createRect 10 0 0 10" and ?B = "createRect 30 0 5 10"
  have e: "mergeRects [?A, ?B] 5 None = [?A, ?B]"
    by (simp add: mergeRects_def mergeLoop.simps rect_eval)
  have ne: "?B \<noteq> ?A" by (simp add: createRect_def bboxPolygon_def)
  have n: "isNear ?B ?A 5" by (simp add: rect_eval)
  show ?thesis unfolding e using ne n by simp
qed

text \<open>
  Claim C9, amended. For every rectangle list \<open>R\<close> and threshold \<open>d\<close>, no rectangle of
  the output of \<open>mergeRects R d\<close> without a horizontal threshold is near a rectangle behind
  it in the output. When every rectangle of \<open>R\<close> has ordered corners (\<open>x0 \<le> x1\<close>,
  \<open>y0 \<le> y1\<close>), so has every rectangle of the output, and the output is pairwise
  non-near: any two rectangles at different positions of the output, and so any two
  different rectangles of the output, are not near each other under \<open>d\<close>.
  (\<open>mergeRects\<close> is a total function: the fixpoint loop always ends, each repeated pass
  having shortened the list.)
\<close>

theorem mergeRects_pairwise_not_near:
  "(\<forall>i j. i < j \<and> j < length (mergeRects R d None) \<longrightarrow>
      \<not> isNear (mergeRects R d None ! i) (mergeRects R d None ! j) d) \<and>
   ((\<forall>r \<in> set R. ordered_corners r) \<longrightarrow>
      (\<forall>r \<in> set (mergeRects R d None). ordered_corners r) \<and>
      (\<forall>i < length (mergeRects R d None). \<forall>j < length (mergeRects R d None).
         i \<noteq> j \<longrightarrow> \<not> isNear (mergeRects R d None ! i) (mergeRects R d None ! j) d) \<and>
      (\<forall>u \<in> set (mergeRects R d None). \<forall>v \<in> set (mergeRects R d None).
         u \<noteq> v \<longrightarrow> \<not> isNear u v d))"
proof -
  let ?W = "mergeRects R d None"
  have one: "\<forall>i j. i < j \<and> j < length ?W \<longrightarrow> \<not> isNear (?W ! i) (?W ! j) d"
    using mergeRects_later_not_near by blast
  have two: "(\<forall>r \<in> set R. ordered_corners r) \<longrightarrow>
      (\<forall>r \<in> set ?W. ordered_corners r) \<and>
      (\<forall>i < length ?W. \<forall>j < length ?W. i \<noteq> j \<longrightarrow> \<not> isNear (?W ! i) (?W ! j) d) \<and>
      (\<forall>u \<in> set ?W. \<forall>v \<in> set ?W. u \<noteq> v \<longrightarrow> \<not> isNear u v d)"
  proof
    assume o: "\<forall>r \<in> set R. ordered_corners r"
    have ow: "\<forall>r \<in> set ?W. ordered_corners r" using o by (rule mergeRects_ordered)
    have pos: "\<not> isNear (?W ! i) (?W ! j) d" if "i < length ?W" "j < length ?W" "i \<noteq> j" for i j
    proof (cases "i < j")
      case True
      then show ?thesis using that mergeRects_later_not_near by blast
    next
      case False
      with that have "j < i" by simp
      then have "\<not> isNear (?W ! j) (?W ! i) d" using that mergeRects_later_not_near by blast
      moreover have "ordered_corners (?W ! i)" "ordered_corners (?W ! j)"
        using ow that by simp_all
      ultimately show ?thesis using isNear_sym by blast
    qed
    have vals: "\<not> isNear u v d" if "u \<in> set ?W" "v \<in> set ?W" "u \<noteq> v" for u v
    proof -
      from that obtain i j where "i < length ?W" "j < length ?W" "?W ! i = u" "?W ! j = v"
        "i \<noteq> j"
        by (metis in_set_conv_nth)
      then show ?thesis using pos by blast
    qed
    show "(\<forall>r \<in> set ?W. ordered_corners r) \<and>
      (\<forall>i < length ?W. \<forall>j < length ?W. i \<noteq> j \<longrightarrow> \<not> isNear (?W ! i) (?W ! j) d) \<and>
      (\<forall>u \<in> set ?W. \<forall>v \<in> set ?W. u \<noteq> v \<longrightarrow> \<not> isNear u v d)"
      using ow pos vals by blast
  qed
  from one two show ?thesis by (rule conjI)
qed

theorem mergeRects_pairwise_not_near_witness:
  "ordered_corners (createRect 10 10 30 20) \<and> ordered_corners (createRect 32 12 50 22) \<and>
   ordered_corners (createRect 100 100 120 120) \<and>
   mergeRects [createRect 10 10 30 20, createRect 32 12 50 22, createRect 100 100 120 120]
     5 None = [createRect 10 10 50 22, createRect 100 100 120 120] \<and>
   \<not> isNear (createRect 10 10 50 22) (createRect 100 100 120 120) 5 \<and>
   \<not> isNear (createRect 100 100 120 120) (createRect 10 10 50 22) 5"
proof -
  let ?R = "[createRect 10 10 30 20, createRect 32 12 50 22, createRect 100 100 120 120]"
  let ?W = "[createRect 10 10 50 22, createRect 100 100 120 120]"
  have o1: "ordered_corners (createRect 10 10 30 20)"
    and o2: "ordered_corners (createRect 32 12 50 22)"
    and o3: "ordered_corners (createRect 100 100 120 120)"
    by (simp_all add: ordered_createRect)
  then have o: "\<forall>r \<in> set ?R. ordered_corners r" by simp
  have e: "mergeRects ?R 5 None = ?W" by (rule mergeRects_merges_then_stops)
  have "\<forall>i < length (mergeRects ?R 5 None). \<forall>j < length (mergeRects ?R 5 None).
      i \<noteq> j \<longrightarrow> \<not> isNear (mergeRects ?R 5 None ! i) (mergeRects ?R 5 None ! j) 5"
    using mergeRects_pairwise_not_near [of ?R 5] o by blast
  then have both: "\<forall>i < length ?W. \<forall>j < length ?W. i \<noteq> j \<longrightarrow> \<not> isNear (?W ! i) (?W ! j) 5"
    unfolding e .
  have a: "\<not> isNear (?W ! 0) (?W ! 1) 5"
    using both [rule_format, of 0 1] by simp
  have b: "\<not> isNear (?W ! 1) (?W ! 0) 5"
    using both [rule_format, of 1 0] by simp
  show ?thesis using o1 o2 o3 e a b by simp
qed

subsection \<open>Adsorption\<close>

lemma first_near_Some_iff:
  "first_near d s ts = Some i \<longleftrightarrow>
     i < length ts \<and> isNear s (ts ! i) d \<and> (\<forall>j < i. \<not> isNear s (ts ! j) d)"
proof (induction ts arbitrary: i)
  case Nil
  show ?case by simp
next
  case (Cons t ts)
  show ?case
  proof (cases "isNear s t d")
    case True
    then show ?thesis by (cases i) auto
  next
    case False
    show ?thesis
    proof (cases i)
      case 0
      with False show ?thesis by simp
    next
      case (Suc k)
      have "(\<forall>j < Suc k. \<not> isNear s ((t # ts) ! j) d) \<longleftrightarrow> (\<forall>j < k. \<not> isNear s (ts ! j) d)"
        using False by (auto simp: less_Suc_eq_0_disj)
      with False Suc Cons.IH [of k] show ?thesis by auto
    qed
  qed
qed

lemma first_near_None_iff:
  "first_near d s ts = None \<longleftrightarrow> (\<forall>t \<in> set ts. \<not> isNear s t d)"
  by (induction ts) auto

lemma tryAdsorb_first_near:
  "tryAdsorb d s ts =
     (case first_near d s ts of
        None \<Rightarrow> (ts, False)
      | Some i \<Rightarrow> (ts[i := unionRects s (ts ! i)], True))"
  by (induction ts) (auto split: option.splits prod.splits)

lemma tryAdsorb_length: "length (fst (tryAdsorb d s ts)) = length ts"
  by (simp add: tryAdsorb_first_near split: option.splits)

lemma adsorbLoop_snoc:
  "adsorbLoop d (S @ [s]) acc =
     (case adsorbLoop d S acc of
        (U, T1) \<Rightarrow>
          (case tryAdsorb d s T1 of
             (T2, adsorbed) \<Rightarrow> (if adsorbed then U else U @ [s], T2)))"
proof (induction S arbitrary: acc)
  case Nil
  show ?case by (cases acc) (simp split: prod.splits)
next
  case (Cons a S)
  show ?case by (cases acc) (simp add: Cons.IH split: prod.splits)
qed

lemma adsorbLoop_length: "length (snd (adsorbLoop d S acc)) = length (snd acc)"
proof (induction S arbitrary: acc)
  case Nil
  show ?case by simp
next
  case (Cons a S)
  obtain ns ts where acc: "acc = (ns, ts)" by (cases acc)
  obtain ts' ad where t: "tryAdsorb d a ts = (ts', ad)" by (cases "tryAdsorb d a ts")
  have "length ts' = length ts" using tryAdsorb_length [of d a ts] t by simp
  then show ?case using acc t Cons.IH by simp
qed

text \<open>
  Claim C5. \<open>adsorbRectsToRects S T d\<close> handles the sources one after the other, each
  against the targets as the earlier sources left them: with no source the result is
  \<open>([], T)\<close>; a further source \<open>s\<close> is merged into the first target, in scan order, that
  it is near to (that target is overwritten in place by the union and \<open>s\<close> is dropped, no
  other target changes), and is appended unchanged to the unabsorbed list when no target
  is near. The first near target is the one at the least index whose target is near,
  whether or not a later target is nearer. The union of a source and a target is the
  box from the lesser of their lower bounds to the greater of their upper bounds on each
  axis. The returned target list is as long as \<open>T\<close>.
\<close>

theorem adsorbRectsToRects_greedy:
  "adsorbRectsToRects [] T d = ([], T) \<and>
   adsorbRectsToRects (S @ [s]) T d =
     (case adsorbRectsToRects S T d of
        (U, T1) \<Rightarrow>
          (case first_near d s T1 of
             None \<Rightarrow> (U @ [s], T1)
           | Some i \<Rightarrow> (U, T1[i := unionRects s (T1 ! i)]))) \<and>
   length (snd (adsorbRectsToRects S T d)) = length T \<and>
   (first_near d s T1 = Some i \<longleftrightarrow>
      i < length T1 \<and> isNear s (T1 ! i) d \<and> (\<forall>j < i. \<not> isNear s (T1 ! j) d)) \<and>
   (first_near d s T1 = None \<longleftrightarrow> (\<forall>t \<in> set T1. \<not> isNear s t d)) \<and>
   turf_bbox (unionRects s t) =
     \<lparr>b0 = min (b0 (turf_bbox s)) (b0 (turf_bbox t)),
      b1 = min (b1 (turf_bbox s)) (b1 (turf_bbox t)),
      b2 = max (b2 (turf_bbox s)) (b2 (turf_bbox t)),
      b3 = max (b3 (turf_bbox s)) (b3 (turf_bbox t))\<rparr>"
proof -
  have a: "adsorbRectsToRects [] T d = ([], T)"
    by (simp add: adsorbRectsToRects_def)
  have b: "adsorbRectsToRects (S @ [s]) T d =
     (case adsorbRectsToRects S T d of
        (U, T1) \<Rightarrow>
          (case first_near d s T1 of
             None \<Rightarrow> (U @ [s], T1)
           | Some i \<Rightarrow> (U, T1[i := unionRects s (T1 ! i)])))"
    unfolding adsorbRectsToRects_def adsorbLoop_snoc
    by (simp add: tryAdsorb_first_near split: prod.splits option.splits)
  have c: "length (snd (adsorbRectsToRects S T d)) = length T"
    by (simp add: adsorbRectsToRects_def adsorbLoop_length)
  note e = first_near_Some_iff [of d s T1 i]
  note f = first_near_None_iff [of d s T1]
  note g = turf_bbox_unionRects [of s t]
  show ?thesis by (intro conjI) (rule a b c e f g)+
qed

text \<open>
  The source \<open>(13, 0, 19, 10)\<close> is 3 away from the first target \<open>(0, 0, 10, 10)\<close> and 1
  away from the second target \<open>(20, 0, 30, 10)\<close>; with threshold 5 it is near both and is
  merged into the first, which grows to \<open>(0, 0, 19, 10)\<close>. The source
  \<open>(150, 150, 160, 160)\<close> is near no target and stays.
\<close>

theorem adsorbRectsToRects_greedy_witness:
  "adsorbRectsToRects [createRect 13 0 19 10, createRect 150 150 160 160]
     [createRect 0 0 10 10, createRect 20 0 30 10] 5 =
     ([createRect 150 150 160 160], [createRect 0 0 19 10, createRect 20 0 30 10]) \<and>
   first_near 5 (createRect 13 0 19 10) [createRect 0 0 10 10, createRect 20 0 30 10] = Some 0 \<and>
   isNear (createRect 13 0 19 10) (createRect 0 0 10 10) 5 \<and>
   isNear (createRect 13 0 19 10) (createRect 20 0 30 10) 5 \<and>
   isNear (createRect 13 0 19 10) (createRect 20 0 30 10) 1 \<and>
   \<not> isNear (createRect 13 0 19 10) (createRect 0 0 10 10) 1 \<and>
   turf_bbox (unionRects (createRect 13 0 19 10) (createRect 0 0 10 10)) =
     \<lparr>b0 = 0, b1 = 0, b2 = 19, b3 = 10\<rparr> \<and>
   first_near 5 (createRect 150 150 160 160)
     [createRect 0 0 19 10, createRect 20 0 30 10] = None \<and>
   \<not> isNear (createRect 150 150 160 160) (createRect 20 0 30 10) 5"
proof -
  let ?s1 = "createRect 13 0 19 10" and ?s2 = "createRect 150 150 160 160"
  let ?t1 = "createRect 0 0 10 10" and ?t2 = "createRect 20 0 30 10"
  let ?u = "createRect 0 0 19 10"
  have f1: "first_near 5 ?s1 [?t1, ?t2] = Some 0" by (simp add: rect_eval)
  have f2: "first_near 5 ?s2 [?u, ?t2] = None" by (simp add: rect_eval)
  have u: "unionRects ?s1 ?t1 = ?u" by (simp add: rect_eval)
  have near2: "isNear ?s1 ?t2 5" by (simp add: rect_eval)
  have nearer: "isNear ?s1 ?t2 1" by (simp add: rect_eval)
  have farther: "\<not> isNear ?s1 ?t1 1" by (simp add: rect_eval)
  note g1 = adsorbRectsToRects_greedy [of "[?t1, ?t2]" 5 "[]" ?s1 "[?t1, ?t2]" 0 ?t1]
  note g2 = adsorbRectsToRects_greedy [of "[?t1, ?t2]" 5 "[?s1]" ?s2 "[?u, ?t2]" 0 ?t2]
  have n1: "isNear ?s1 ([?t1, ?t2] ! 0) 5"
    using g1 f1 by blast
  have n2: "\<forall>t \<in> set [?u, ?t2]. \<not> isNear ?s2 t 5"
    using g2 f2 by blast
  have bb: "turf_bbox (unionRects ?s1 ?t1) = \<lparr>b0 = 0, b1 = 0, b2 = 19, b3 = 10\<rparr>"
    unfolding g1 [THEN conjunct2, THEN conjunct2, THEN conjunct2, THEN conjunct2, THEN conjunct2]
    by (simp add: createRect_def bboxPolygon_def)
  have r0: "adsorbRectsToRects [] [?t1, ?t2] 5 = ([], [?t1, ?t2])"
    using g1 by blast
  have r1: "adsorbRectsToRects [?s1] [?t1, ?t2] 5 = ([], [?u, ?t2])"
    using g1 [THEN conjunct2, THEN conjunct1]
    by (simp add: r0 f1 u del: first_near.simps)
  have r2: "adsorbRectsToRects [?s1, ?s2] [?t1, ?t2] 5 = ([?s2], [?u, ?t2])"
    using g2 [THEN conjunct2, THEN conjunct1]
    by (simp add: r1 f2 del: first_near.simps)
  show ?thesis using r2 f1 f2 n1 n2 near2 nearer farther bb by simp
qed

section \<open>Properties of the heading reconciliation\<close>

lemma split_nl_not_Nil: "split_nl s \<noteq> []"
  by (induction s) (auto split: list.splits)

lemma join_split_nl: "join_nl (split_nl s) = s"
proof (induction s)
  case Nil
  show ?case by simp
next
  case (Cons c cs)
  obtain l ls where e: "split_nl cs = l # ls"
    using split_nl_not_Nil [of cs] by (cases "split_nl cs") auto
  show ?case
  proof (cases "c = CHR 0x0A")
    case True
    with Cons.IH e show ?thesis by simp
  next
    case False
    with Cons.IH e show ?thesis by (cases ls) auto
  qed
qed

lemma split_nl_no_newline: "l \<in> set (split_nl s) \<Longrightarrow> CHR 0x0A \<notin> set l"
proof (induction s arbitrary: l)
  case Nil
  then show ?case by simp
next
  case (Cons c cs)
  obtain l' ls where e: "split_nl cs = l' # ls"
    using split_nl_not_Nil [of cs] by (cases "split_nl cs") auto
  show ?case
  proof (cases "c = CHR 0x0A")
    case True
    with Cons show ?thesis by auto
  next
    case False
    with Cons.prems e have "l = c # l' \<or> l \<in> set ls" by auto
    with Cons.IH e False show ?thesis by auto
  qed
qed

lemma split_nl_append_line:
  "CHR 0x0A \<notin> set l \<Longrightarrow> split_nl (l @ CHR 0x0A # s) = l # split_nl s"
  by (induction l) auto

lemma split_nl_single: "CHR 0x0A \<notin> set l \<Longrightarrow> split_nl l = [l]"
  by (induction l) auto

lemma split_join_nl:
  "ls \<noteq> [] \<Longrightarrow> \<forall>l \<in> set ls. CHR 0x0A \<notin> set l \<Longrightarrow> split_nl (join_nl ls) = ls"
proof (induction ls rule: join_nl.induct)
  case 1
  then show ?case by simp
next
  case (2 l)
  then show ?case by (simp add: split_nl_single)
next
  case (3 l v va)
  then show ?case by (simp add: split_nl_append_line)
qed

lemma attempts_Nil: "line = [] \<or> hd line \<noteq> CHR ''#'' \<Longrightarrow> attempts line = []"
  by (cases line) (auto simp: attempts_def)

lemma attempts_Cons:
  assumes "line \<noteq> []" "hd line = CHR ''#''"
  shows "\<exists>rest. attempts line =
    (length (takeWhile (\<lambda>c. c = CHR ''#'') line),
     length (takeWhile isWhiteSpace (dropWhile (\<lambda>c. c = CHR ''#'') line))) # rest"
proof -
  let ?h = "length (takeWhile (\<lambda>c. c = CHR ''#'') line)"
  from assms have "0 < ?h" by (cases line) auto
  then obtain h' where h: "?h = Suc h'" by (cases ?h) auto
  have d: "drop ?h line = dropWhile (\<lambda>c. c = CHR ''#'') line"
    by (simp add: dropWhile_eq_drop)
  have "[1 ..< Suc ?h] = [1 ..< ?h] @ [?h]" using h by simp
  then have r: "rev [1 ..< Suc ?h] = ?h # rev [1 ..< ?h]" by simp
  show ?thesis
    unfolding attempts_def r by (simp add: d)
qed

lemma matchHeading_star:
  "matchHeading False line =
     (if line \<noteq> [] \<and> hd line = CHR ''#''
      then Some (length (takeWhile (\<lambda>c. c = CHR ''#'') line),
                 takeWhile (\<lambda>c. \<not> isLineTerminator c)
                   (dropWhile isWhiteSpace (dropWhile (\<lambda>c. c = CHR ''#'') line)))
      else None)"
proof (cases "line \<noteq> [] \<and> hd line = CHR ''#''")
  case True
  then obtain rest where a: "attempts line =
    (length (takeWhile (\<lambda>c. c = CHR ''#'') line),
     length (takeWhile isWhiteSpace (dropWhile (\<lambda>c. c = CHR ''#'') line))) # rest"
    using attempts_Cons by blast
  have d: "drop (length (takeWhile (\<lambda>c. c = CHR ''#'') line) +
                 length (takeWhile isWhiteSpace (dropWhile (\<lambda>c. c = CHR ''#'') line))) line
           = dropWhile isWhiteSpace (dropWhile (\<lambda>c. c = CHR ''#'') line)"
    by (metis add.commute drop_drop dropWhile_eq_drop)
  show ?thesis
    using True unfolding matchHeading_def a
    by (simp add: List.map_filter_simps attempt_def d)
next
  case False
  then have "attempts line = []" using attempts_Nil by blast
  with False show ?thesis by (simp add: matchHeading_def List.map_filter_simps)
qed

lemma matchHeading_no_marker:
  "line = [] \<or> hd line \<noteq> CHR ''#'' \<Longrightarrow> matchHeading nonEmpty line = None"
  by (simp add: matchHeading_def attempts_Nil List.map_filter_simps)

lemma takeWhile_not_LT_no_newline: "CHR 0x0A \<notin> set (takeWhile (\<lambda>c. \<not> isLineTerminator c) s)"
  by (induction s) (auto simp: isLineTerminator_def)

lemma adjustLine_no_newline:
  assumes "CHR 0x0A \<notin> set line"
  shows "CHR 0x0A \<notin> set (adjustLine m line)"
  using assms takeWhile_not_LT_no_newline
  by (auto simp: adjustLine_def matchHeading_star split: option.splits if_splits)

lemma split_adjust:
  "split_nl (adjustMarkdownHeadings text outline) =
     map (adjustLine (createTitleLevelMap outline)) (split_nl text)"
  unfolding adjustMarkdownHeadings_def Let_def
  by (rule split_join_nl) (auto simp: split_nl_not_Nil adjustLine_no_newline split_nl_no_newline)

lemma titleLevelLoop_dom:
  "dom (titleLevelLoop lines m) =
     dom m \<union> set (List.map_filter
                     (\<lambda>line. map_option (\<lambda>m. trim (snd m)) (matchHeading True line)) lines)"
  by (induction lines arbitrary: m)
     (auto simp: List.map_filter_simps split: option.splits)

lemma createTitleLevelMap_empty: "createTitleLevelMap [] = Map.empty"
  by (simp add: createTitleLevelMap_def matchHeading_no_marker)

lemma adjustLine_empty: "adjustLine Map.empty line = line"
  by (simp add: adjustLine_def split: option.splits)

lemma adjustMarkdownHeadings_empty_outline: "adjustMarkdownHeadings c [] = c"
proof -
  have "map (adjustLine Map.empty) (split_nl c) = split_nl c"
    by (rule map_idI) (rule adjustLine_empty)
  then show ?thesis
    by (simp add: adjustMarkdownHeadings_def createTitleLevelMap_empty join_split_nl)
qed


lemma adjustLine_unmatched:
  "heading_text line = Some txt \<Longrightarrow> txt \<notin> dom m \<Longrightarrow> adjustLine m line = line"
  by (auto simp: adjustLine_def heading_text_def split: option.splits)

lemma adjustLine_no_heading: "heading_text line = None \<Longrightarrow> adjustLine m line = line"
  by (auto simp: adjustLine_def heading_text_def split: option.splits)

lemma heading_text_None_iff: "heading_text line = None \<longleftrightarrow> line = [] \<or> hd line \<noteq> CHR ''#''"
  by (auto simp: heading_text_def matchHeading_star)

lemma adjustLine_changed:
  assumes "adjustLine m line \<noteq> line"
  shows "\<exists>n ws txt rest level.
           line = replicate n (CHR ''#'') @ ws @ txt @ rest \<and> 0 < n \<and>
           (\<forall>c \<in> set ws. isWhiteSpace c) \<and>
           (rest = [] \<or> isLineTerminator (hd rest)) \<and>
           heading_text line = Some txt \<and> m txt = Some level \<and>
           adjustLine m line = replicate level (CHR ''#'') @ '' '' @ txt"
proof -
  let ?hs = "takeWhile (\<lambda>c. c = CHR ''#'') line"
  let ?r1 = "dropWhile (\<lambda>c. c = CHR ''#'') line"
  let ?ws = "takeWhile isWhiteSpace ?r1"
  let ?r2 = "dropWhile isWhiteSpace ?r1"
  let ?txt = "takeWhile (\<lambda>c. \<not> isLineTerminator c) ?r2"
  let ?rest = "dropWhile (\<lambda>c. \<not> isLineTerminator c) ?r2"
  from assms have st: "line \<noteq> [] \<and> hd line = CHR ''#''"
    using adjustLine_no_heading [of line m] heading_text_None_iff [of line] by auto
  then have ht: "heading_text line = Some ?txt"
    by (simp add: heading_text_def matchHeading_star)
  from assms ht obtain level where lv: "m ?txt = Some level"
    using adjustLine_unmatched [of line ?txt m] by (cases "m ?txt") auto
  have out: "adjustLine m line = replicate level (CHR ''#'') @ '' '' @ ?txt"
    using st lv by (simp add: adjustLine_def matchHeading_star)
  have hs: "?hs = replicate (length ?hs) (CHR ''#'')"
    by (rule replicate_length_same [symmetric]) (auto dest: set_takeWhileD)
  have pos: "0 < length ?hs" using st by (cases line) auto
  have dec: "line = ?hs @ ?ws @ ?txt @ ?rest" by simp
  have ws: "\<forall>c \<in> set ?ws. isWhiteSpace c" by (auto dest: set_takeWhileD)
  have rest: "?rest = [] \<or> isLineTerminator (hd ?rest)"
    using hd_dropWhile [of "\<lambda>c. \<not> isLineTerminator c" ?r2] by auto
  from dec hs have dec': "line = replicate (length ?hs) (CHR ''#'') @ ?ws @ ?txt @ ?rest"
    by simp
  show ?thesis
    using dec' pos ws rest ht lv out by blast
qed

text \<open>
  What \<open>adjustMarkdownHeadings\<close> leaves alone and what it rewrites: the number of lines
  is kept, a line without a leading marker is kept, and a line that changes is a heading
  line whose text is a key of the outline's map; it becomes the new marker run, one space
  and the text, and loses whatever followed the text from its first line terminator on.
\<close>

lemma adjustMarkdownHeadings_frame:
  "length (split_nl (adjustMarkdownHeadings text outline)) = length (split_nl text) \<and>
   (\<forall>i < length (split_nl text).
      (split_nl text ! i = [] \<or> hd (split_nl text ! i) \<noteq> CHR ''#'' \<longrightarrow>
         split_nl (adjustMarkdownHeadings text outline) ! i = split_nl text ! i) \<and>
      (split_nl (adjustMarkdownHeadings text outline) ! i \<noteq> split_nl text ! i \<longrightarrow>
         (\<exists>n ws txt rest level.
            split_nl text ! i = replicate n (CHR ''#'') @ ws @ txt @ rest \<and> 0 < n \<and>
            (\<forall>c \<in> set ws. isWhiteSpace c) \<and>
            (rest = [] \<or> isLineTerminator (hd rest)) \<and>
            createTitleLevelMap outline txt = Some level \<and>
            split_nl (adjustMarkdownHeadings text outline) ! i =
              replicate level (CHR ''#'') @ '' '' @ txt)))"
proof (intro conjI allI impI)
  show "length (split_nl (adjustMarkdownHeadings text outline)) = length (split_nl text)"
    by (simp add: split_adjust)
next
  fix i
  assume "i < length (split_nl text)"
    and "split_nl text ! i = [] \<or> hd (split_nl text ! i) \<noteq> CHR ''#''"
  then show "split_nl (adjustMarkdownHeadings text outline) ! i = split_nl text ! i"
    by (simp add: split_adjust adjustLine_no_heading heading_text_None_iff)
next
  fix i
  assume i: "i < length (split_nl text)"
    and "split_nl (adjustMarkdownHeadings text outline) ! i \<noteq> split_nl text ! i"
  then have "adjustLine (createTitleLevelMap outline) (split_nl text ! i) \<noteq> split_nl text ! i"
    by (simp add: split_adjust)
  from adjustLine_changed [OF this] i
  show "\<exists>n ws txt rest level.
            split_nl text ! i = replicate n (CHR ''#'') @ ws @ txt @ rest \<and> 0 < n \<and>
            (\<forall>c \<in> set ws. isWhiteSpace c) \<and>
            (rest = [] \<or> isLineTerminator (hd rest)) \<and>
            createTitleLevelMap outline txt = Some level \<and>
            split_nl (adjustMarkdownHeadings text outline) ! i =
              replicate level (CHR ''#'') @ '' '' @ txt"
    by (simp add: split_adjust) blast
qed

text \<open>
  A heading line whose captured text is not a key of the map that
  \<open>createTitleLevelMap\<close> builds from the outline is reproduced unchanged at its position,
  and the lines of the result correspond one to one to the lines of the text.
\<close>

lemma unmatched_key_unchanged:
  "length (split_nl (adjustMarkdownHeadings text outline)) = length (split_nl text) \<and>
   (\<forall>i < length (split_nl text). \<forall>txt.
      heading_text (split_nl text ! i) = Some txt \<and>
      txt \<notin> dom (createTitleLevelMap outline) \<longrightarrow>
      split_nl (adjustMarkdownHeadings text outline) ! i = split_nl text ! i)"
  by (auto simp: split_adjust adjustLine_unmatched)

lemma reconcile_example:
  "adjustMarkdownHeadings ''# A\<newline>text\<newline>## A.1\<newline># B\<newline># C''
     ''## A\<newline>### A.1\<newline>## B'' =
   ''## A\<newline>text\<newline>### A.1\<newline>## B\<newline># C''"
  by code_simp

lemma dropWhile_fixed: "xs = [] \<or> \<not> P (hd xs) \<Longrightarrow> dropWhile P xs = xs"
  by (cases xs) auto

lemma hd_dropWhile_not: "dropWhile P xs \<noteq> [] \<Longrightarrow> \<not> P (hd (dropWhile P xs))"
  by (rule hd_dropWhile)

lemma trim_dropWhile: "trim (dropWhile isWhiteSpace s) = trim s"
  by (simp add: trim_def)

lemma trim_fixed:
  assumes "s = [] \<or> \<not> isWhiteSpace (hd s)" "s = [] \<or> \<not> isWhiteSpace (last s)"
  shows "trim s = s"
proof -
  have a: "dropWhile isWhiteSpace s = s" using assms(1) by (rule dropWhile_fixed)
  have "rev s = [] \<or> \<not> isWhiteSpace (hd (rev s))"
    using assms(2) by (cases "s = []") (simp_all add: hd_rev)
  then have "dropWhile isWhiteSpace (rev s) = rev s" by (rule dropWhile_fixed)
  with a show ?thesis by (simp add: trim_def)
qed

lemma trim_ends:
  "(trim s = [] \<or> \<not> isWhiteSpace (hd (trim s))) \<and>
   (trim s = [] \<or> \<not> isWhiteSpace (last (trim s)))"
proof (cases "trim s = []")
  case True
  then show ?thesis by simp
next
  case False
  let ?a = "dropWhile isWhiteSpace s"
  let ?b = "dropWhile isWhiteSpace (rev ?a)"
  have t: "trim s = rev ?b" by (simp add: trim_def)
  with False have bne: "?b \<noteq> []" by simp
  then have "\<not> isWhiteSpace (hd ?b)" by (rule hd_dropWhile)
  then have l: "\<not> isWhiteSpace (last (trim s))" using bne by (simp add: t last_rev)
  have "rev ?a = takeWhile isWhiteSpace (rev ?a) @ ?b" by simp
  then have "?a = rev ?b @ rev (takeWhile isWhiteSpace (rev ?a))"
    by (metis rev_append rev_rev_ident)
  then have "hd ?a = hd (rev ?b)" using bne by (metis hd_append2 rev_is_Nil_conv)
  moreover have "?a \<noteq> []" using bne by (cases "?a = []") simp_all
  then have "\<not> isWhiteSpace (hd ?a)" by (rule hd_dropWhile)
  ultimately have "\<not> isWhiteSpace (hd (trim s))" by (simp add: t)
  with l show ?thesis by simp
qed

lemma trim_idem: "trim (trim s) = trim s"
  using trim_ends [of s] by (intro trim_fixed) simp_all

lemma takeWhile_all: "\<forall>x \<in> set xs. P x \<Longrightarrow> takeWhile P xs = xs"
  by (simp add: takeWhile_eq_all_conv)

lemma not_LT_in_line:
  "CHR 0x0A \<notin> set l \<Longrightarrow> CHR 0x0D \<notin> set l \<Longrightarrow> \<forall>c \<in> set l. \<not> isLineTerminator c"
  by (auto simp: isLineTerminator_def)

lemma matchHeading_plus_plain:
  assumes "line \<noteq> []" "hd line = CHR ''#''"
    and r: "dropWhile isWhiteSpace (dropWhile (\<lambda>c. c = CHR ''#'') line) \<noteq> []"
  shows "matchHeading True line =
     Some (length (takeWhile (\<lambda>c. c = CHR ''#'') line),
           takeWhile (\<lambda>c. \<not> isLineTerminator c)
             (dropWhile isWhiteSpace (dropWhile (\<lambda>c. c = CHR ''#'') line)))"
proof -
  let ?r = "dropWhile isWhiteSpace (dropWhile (\<lambda>c. c = CHR ''#'') line)"
  obtain rest where a: "attempts line =
    (length (takeWhile (\<lambda>c. c = CHR ''#'') line),
     length (takeWhile isWhiteSpace (dropWhile (\<lambda>c. c = CHR ''#'') line))) # rest"
    using attempts_Cons [OF assms(1,2)] by blast
  have d: "drop (length (takeWhile (\<lambda>c. c = CHR ''#'') line) +
                 length (takeWhile isWhiteSpace (dropWhile (\<lambda>c. c = CHR ''#'') line))) line
           = ?r"
    by (metis add.commute drop_drop dropWhile_eq_drop)
  from r have "\<not> isWhiteSpace (hd ?r)" by (rule hd_dropWhile)
  then have "\<not> isLineTerminator (hd ?r)"
    by (auto simp: isWhiteSpace_def isLineTerminator_def)
  with r have "takeWhile (\<lambda>c. \<not> isLineTerminator c) ?r \<noteq> []"
    by (cases ?r) auto
  then show ?thesis
    unfolding matchHeading_def a
    by (simp add: List.map_filter_simps attempt_def d)
qed

lemma code_key_plain:
  assumes "plain_line l" "CHR 0x0A \<notin> set l"
  shows "map_option (\<lambda>m. trim (snd m)) (matchHeading True l) =
         map_option snd (spec_heading_entry l)"
proof (cases "l = [] \<or> hd l \<noteq> CHR ''#''")
  case True
  then have "takeWhile (\<lambda>c. c = CHR ''#'') l = []" by (cases l) auto
  with True show ?thesis by (simp add: matchHeading_no_marker spec_heading_entry_def)
next
  case False
  then have st: "l \<noteq> []" "hd l = CHR ''#''" by simp_all
  let ?d = "dropWhile (\<lambda>c. c = CHR ''#'') l"
  let ?r = "dropWhile isWhiteSpace ?d"
  from assms(1) False have r: "?r \<noteq> []" and cr: "CHR 0x0D \<notin> set l"
    by (auto simp: plain_line_def)
  have "set ?r \<subseteq> set l" by (meson set_dropWhileD subsetI)
  with cr assms(2) have "\<forall>c \<in> set ?r. \<not> isLineTerminator c"
    by (auto simp: isLineTerminator_def)
  then have tw: "takeWhile (\<lambda>c. \<not> isLineTerminator c) ?r = ?r" by (rule takeWhile_all)
  have mk: "takeWhile (\<lambda>c. c = CHR ''#'') l \<noteq> []" using st by (cases l) auto
  have "drop (length (takeWhile (\<lambda>c. c = CHR ''#'') l)) l = ?d"
    by (simp add: dropWhile_eq_drop)
  then have sp: "spec_heading_entry l =
      Some (length (takeWhile (\<lambda>c. c = CHR ''#'') l), trim ?d)"
    using mk by (simp add: spec_heading_entry_def Let_def)
  show ?thesis
    unfolding matchHeading_plus_plain [OF st r] sp tw
    by (simp add: trim_dropWhile)
qed

lemma map_filter_cong_set:
  "\<forall>x \<in> set xs. f x = g x \<Longrightarrow> List.map_filter f xs = List.map_filter g xs"
  by (induction xs) (auto simp: List.map_filter_simps split: option.splits)

lemma createTitleLevelMap_keys_plain:
  assumes "\<forall>l \<in> set (split_nl outline). plain_line l"
  shows "dom (createTitleLevelMap outline) = spec_outline_texts outline"
proof -
  have "\<forall>l \<in> set (split_nl outline).
      map_option (\<lambda>m. trim (snd m)) (matchHeading True l) = map_option snd (spec_heading_entry l)"
    using assms code_key_plain split_nl_no_newline by blast
  from map_filter_cong_set [OF this] show ?thesis
    by (simp add: createTitleLevelMap_def spec_outline_texts_def titleLevelLoop_dom)
qed

lemma spec_outline_text_trimmed:
  "t \<in> spec_outline_texts outline \<Longrightarrow> trim t = t"
proof -
  assume "t \<in> spec_outline_texts outline"
  then obtain l n where "spec_heading_entry l = Some (n, t)"
    by (auto simp: spec_outline_texts_def List.map_filter_def)
  then obtain y where "t = trim y"
    by (auto simp: spec_heading_entry_def Let_def split: if_splits)
  then show ?thesis by (simp add: trim_idem)
qed

text \<open>
  Where the outline's lines are plain and the heading line holds no carriage return, a
  heading line whose text, in the specification's sense, is not the text of any heading
  entry of the outline stays as it is.
\<close>

lemma spec_unmatched_heading_unchanged:
  assumes wf: "\<forall>l \<in> set (split_nl outline). plain_line l"
    and i: "i < length (split_nl text)"
    and cr: "CHR 0x0D \<notin> set (split_nl text ! i)"
    and sp: "spec_heading_entry (split_nl text ! i) = Some (n, txt)"
    and un: "txt \<notin> spec_outline_texts outline"
  shows "split_nl (adjustMarkdownHeadings text outline) ! i = split_nl text ! i"
proof -
  let ?l = "split_nl text ! i"
  let ?d = "dropWhile (\<lambda>c. c = CHR ''#'') ?l"
  let ?r = "dropWhile isWhiteSpace ?d"
  have nl: "CHR 0x0A \<notin> set ?l" using i split_nl_no_newline [of "split_nl text ! i" "text"] by simp
  from sp have mk: "takeWhile (\<lambda>c. c = CHR ''#'') ?l \<noteq> []"
    by (auto simp: spec_heading_entry_def Let_def split: if_splits)
  then have st: "?l \<noteq> []" "hd ?l = CHR ''#''" by (cases ?l; auto split: if_splits)+
  have "drop (length (takeWhile (\<lambda>c. c = CHR ''#'') ?l)) ?l = ?d"
    by (simp add: dropWhile_eq_drop)
  with sp mk have tx: "txt = trim ?d" by (simp add: spec_heading_entry_def Let_def)
  have "set ?r \<subseteq> set ?l" by (meson set_dropWhileD subsetI)
  with cr nl have "\<forall>c \<in> set ?r. \<not> isLineTerminator c"
    by (auto simp: isLineTerminator_def)
  then have tw: "takeWhile (\<lambda>c. \<not> isLineTerminator c) ?r = ?r" by (rule takeWhile_all)
  have ht: "heading_text ?l = Some ?r"
    using st by (simp add: heading_text_def matchHeading_star tw)
  have "?r \<notin> dom (createTitleLevelMap outline)"
  proof
    assume "?r \<in> dom (createTitleLevelMap outline)"
    then have m: "?r \<in> spec_outline_texts outline"
      using createTitleLevelMap_keys_plain [OF wf] by simp
    then have "trim ?r = ?r" by (rule spec_outline_text_trimmed)
    then have "txt = ?r" using tx by (simp add: trim_dropWhile)
    with m un show False by simp
  qed
  with ht have "adjustLine (createTitleLevelMap outline) ?l = ?l"
    by (rule adjustLine_unmatched)
  then show ?thesis using i by (simp add: split_adjust)
qed

text \<open>
  Claim C6, at inputs where the code departs from it. The outline consists of the line
  \<open>##\<close>: a heading entry of level 2 with empty text. The pattern of
  \<open>createTitleLevelMap\<close> finds nothing for its last group after the two markers, gives
  one marker back and records the text \<open>#\<close> at level 1. The document's heading
  \<open>### #\<close>, whose text \<open>#\<close> is the text of no heading entry of the outline, is
  rewritten to \<open># #\<close>. Likewise, with the outline \<open>## A\<close>, the heading line \<open># A\<close>
  followed by a carriage return and \<open>B\<close> has a text that the outline does not hold, and
  is rewritten to \<open>## A\<close>, because the capture stops at the carriage return.
\<close>

theorem adjustMarkdownHeadings_rewrites_unmatched_heading:
  "spec_heading_entry ''### #'' = Some (3, ''#'') \<and>
   spec_heading_entry ''##'' = Some (2, []) \<and>
   ''#'' \<notin> spec_outline_texts ''##'' \<and>
   createTitleLevelMap ''##'' ''#'' = Some 1 \<and>
   adjustMarkdownHeadings ''### #'' ''##'' = ''# #'' \<and>
   spec_heading_entry (''# A'' @ [CHR 0x0D] @ ''B'') = Some (1, ''A'' @ [CHR 0x0D] @ ''B'') \<and>
   ''A'' @ [CHR 0x0D] @ ''B'' \<notin> spec_outline_texts ''## A'' \<and>
   adjustMarkdownHeadings (''# A'' @ [CHR 0x0D] @ ''B'') ''## A'' = ''## A''"
  by code_simp

text \<open>
  Claim C10, at an input where the code departs from it. The first line of a document
  with CRLF line ends is the heading \<open># A\<close> followed by a carriage return. The rewrite
  to level 2 drops the carriage return, a character that belongs neither to the marker
  run nor to the white space after it; with text behind the carriage return, that text
  is lost as well.
\<close>

theorem adjustMarkdownHeadings_drops_carriage_return:
  "adjustMarkdownHeadings (''# A'' @ [CHR 0x0D, CHR 0x0A] @ ''body'') ''## A'' = ''## A\<newline>body'' \<and>
   adjustMarkdownHeadings (''# A'' @ [CHR 0x0D] @ ''B'') ''## A'' = ''## A''"
  by code_simp

lemma indexOf_ge: "- 1 \<le> indexOf s needle"
  by (induction s) (auto simp: Let_def)

lemma indexOf_absent_iff:
  "indexOf s needle = - 1 \<longleftrightarrow> (\<forall>i \<le> length s. \<not> occurs_at s needle i)"
proof (induction s)
  case Nil
  show ?case by (auto simp: occurs_at_def)
next
  case (Cons c cs)
  have split: "(\<forall>i \<le> length (c # cs). \<not> occurs_at (c # cs) needle i) \<longleftrightarrow>
      \<not> occurs_at (c # cs) needle 0 \<and> (\<forall>i \<le> length cs. \<not> occurs_at cs needle i)"
  proof -
    have "\<And>i. occurs_at (c # cs) needle (Suc i) = occurs_at cs needle i"
      by (simp add: occurs_at_def)
    then show ?thesis
      by (metis Suc_le_mono length_Cons not0_implies_Suc zero_le)
  qed
  show ?case
    unfolding split using Cons.IH indexOf_ge [of cs needle]
    by (auto simp: Let_def occurs_at_def)
qed

text \<open>
  A response in which the opening delimiter does not occur yields \<^verbatim>\<open>undefined\<close>, and the
  heading correction then returns the content as it is.
\<close>

lemma extract_without_opening:
  "\<forall>i \<le> length output. \<not> occurs_at output ''```markdown'' i \<Longrightarrow>
     extractMdFromLLMOutput output = None"
  using indexOf_absent_iff [of "output" "''```markdown''"]
  by (simp add: extractMdFromLLMOutput_def Let_def)

lemma correctHeadings_undefined:
  "extractMdFromLLMOutput response = None \<Longrightarrow> correctHeadings c response = c"
  by (simp add: correctHeadings_def adjustMarkdownHeadings_empty_outline)

lemma titleLevelLoop_no_marker:
  "\<forall>l \<in> set lines. l = [] \<or> hd l \<noteq> CHR ''#'' \<Longrightarrow> titleLevelLoop lines m = m"
  by (induction lines arbitrary: m) (simp_all add: matchHeading_no_marker)

lemma indexOf_found:
  "indexOf s needle \<noteq> - 1 \<Longrightarrow>
     \<exists>i. indexOf s needle = int i \<and> i \<le> length s \<and> occurs_at s needle i"
proof (induction s)
  case Nil
  then show ?case by (auto simp: occurs_at_def split: if_splits)
next
  case (Cons c cs)
  show ?case
  proof (cases "take (length needle) (c # cs) = needle")
    case True
    then show ?thesis by (intro exI [of _ 0]) (simp add: occurs_at_def)
  next
    case False
    with Cons.prems have "indexOf cs needle \<noteq> - 1" by (auto simp: Let_def split: if_splits)
    from Cons.IH [OF this] obtain i where
      i: "indexOf cs needle = int i" "i \<le> length cs" "occurs_at cs needle i" by blast
    with False show ?thesis
      by (intro exI [of _ "Suc i"]) (simp add: occurs_at_def Let_def)
  qed
qed

lemma lastIndexOf_found:
  "lastIndexOf s needle \<noteq> - 1 \<Longrightarrow>
     \<exists>j. lastIndexOf s needle = int j \<and> j \<le> length s \<and> occurs_at s needle j"
proof (induction s)
  case Nil
  then show ?case by (auto simp: occurs_at_def split: if_splits)
next
  case (Cons c cs)
  show ?case
  proof (cases "lastIndexOf cs needle = - 1")
    case True
    with Cons.prems show ?thesis
      by (intro exI [of _ 0]) (auto simp: occurs_at_def Let_def split: if_splits)
  next
    case False
    from Cons.IH [OF this] obtain j where
      j: "lastIndexOf cs needle = int j" "j \<le> length cs" "occurs_at cs needle j" by blast
    then show ?thesis
      by (intro exI [of _ "Suc j"]) (simp add: occurs_at_def Let_def)
  qed
qed

lemma lastIndexOf_ge:
  "occurs_at s needle i \<Longrightarrow> i \<le> length s \<Longrightarrow>
     \<exists>j. lastIndexOf s needle = int j \<and> i \<le> j \<and> j \<le> length s \<and> occurs_at s needle j"
proof (induction s arbitrary: i)
  case Nil
  then show ?case by (auto simp: occurs_at_def)
next
  case (Cons c cs)
  show ?case
  proof (cases i)
    case 0
    show ?thesis
    proof (cases "lastIndexOf cs needle = - 1")
      case True
      with Cons.prems 0 show ?thesis
        by (intro exI [of _ 0]) (simp add: occurs_at_def Let_def)
    next
      case False
      from lastIndexOf_found [OF this] obtain j where
        j: "lastIndexOf cs needle = int j" "j \<le> length cs" "occurs_at cs needle j" by blast
      with 0 show ?thesis
        by (intro exI [of _ "Suc j"]) (simp add: occurs_at_def Let_def)
    qed
  next
    case (Suc i')
    with Cons.prems have "occurs_at cs needle i'" "i' \<le> length cs"
      by (simp_all add: occurs_at_def)
    from Cons.IH [OF this] obtain j where
      j: "lastIndexOf cs needle = int j" "i' \<le> j" "j \<le> length cs" "occurs_at cs needle j"
      by blast
    with Suc show ?thesis
      by (intro exI [of _ "Suc j"]) (simp add: occurs_at_def Let_def)
  qed
qed

lemma has_fenced_blockI:
  assumes "i \<le> length s" "j \<le> length s" "occurs_at s ''```markdown'' i" "i + 11 \<le> j"
    "occurs_at s ''```'' j"
  shows "has_fenced_block s"
proof -
  have i: "i \<in> set [0 ..< Suc (length s)]" and j: "j \<in> set [0 ..< Suc (length s)]"
    using assms(1,2) by auto
  show ?thesis
    unfolding has_fenced_block_def list_ex_iff
    using assms(3,4,5) i j by blast
qed

lemma split_nl_short_tail:
  assumes "CHR 0x0A \<notin> set w" "w \<noteq> []" "hd w \<noteq> CHR ''#''" "length t \<le> 1"
  shows "\<forall>l \<in> set (split_nl (w @ t)). l = [] \<or> hd l \<noteq> CHR ''#''"
proof (cases t)
  case Nil
  with assms show ?thesis by (simp add: split_nl_single)
next
  case (Cons c t')
  with assms(4) have t: "t = [c]" by simp
  show ?thesis
  proof (cases "c = CHR 0x0A")
    case True
    with t assms show ?thesis by (simp add: split_nl_append_line)
  next
    case False
    with t assms have "CHR 0x0A \<notin> set (w @ t)" by simp
    then have "split_nl (w @ t) = [w @ t]" by (rule split_nl_single)
    with assms show ?thesis by simp
  qed
qed

lemma adjustMarkdownHeadings_empty_map:
  assumes "createTitleLevelMap t = Map.empty"
  shows "adjustMarkdownHeadings c t = c"
proof -
  have "map (adjustLine Map.empty) (split_nl c) = split_nl c"
    by (rule map_idI) (rule adjustLine_empty)
  then show ?thesis
    by (simp add: adjustMarkdownHeadings_def assms join_split_nl)
qed

lemma substring_swapped:
  assumes "j \<le> a" "a \<le> length s"
  shows "substring s (int a) (int j) = take (a - j) (drop j s)"
proof -
  have "max 0 (min (int a) (int (length s))) = int a" using assms by simp
  moreover have "max 0 (min (int j) (int (length s))) = int j" using assms by simp
  moreover have "min (int a) (int j) = int j" "max (int a) (int j) = int a"
    using assms by simp_all
  moreover have "nat (int a - int j) = a - j" by simp
  ultimately show ?thesis by (simp add: substring_def Let_def)
qed

lemma substring_clamped:
  "length s \<le> a \<Longrightarrow> substring s (int a) j = substring s (int (length s)) j"
  by (simp add: substring_def Let_def min_def)

text \<open>
  Whatever \<open>extractMdFromLLMOutput\<close> returns for a response without a fenced markdown
  block, the heading correction leaves the content as it is.
\<close>

lemma correctHeadings_without_block:
  assumes "\<not> has_fenced_block response"
  shows "correctHeadings c response = c"
proof (cases "indexOf response ''```markdown'' = - 1")
  case True
  then have "extractMdFromLLMOutput response = None"
    by (simp add: extractMdFromLLMOutput_def Let_def)
  then show ?thesis by (rule correctHeadings_undefined)
next
  case False
  define opn where "opn = ''```markdown''"
  define fence where "fence = ''```''"
  have lo: "length opn = 11" and lf: "length fence = 3"
    and pf: "take 3 opn = fence"
    and nh: "CHR ''#'' \<notin> set opn" and nn: "CHR 0x0A \<notin> set opn"
    by (simp_all add: opn_def fence_def)
  let ?n = "length response"
  from indexOf_found [OF False] obtain i where
    i: "indexOf response opn = int i" "i \<le> ?n" "occurs_at response opn i"
    unfolding opn_def by blast
  from i(3) have pre: "take 11 (drop i response) = opn"
    unfolding occurs_at_def lo .
  have len: "i + 11 \<le> ?n"
  proof -
    have "length (take 11 (drop i response)) = 11" unfolding pre lo ..
    then show ?thesis by simp
  qed
  have "take 3 (drop i response) = take 3 (take 11 (drop i response))" by simp
  then have occF: "occurs_at response fence i"
    unfolding occurs_at_def lf pre pf .
  from lastIndexOf_ge [OF occF i(2)] obtain j where
    j: "lastIndexOf response fence = int j" "i \<le> j" "j \<le> ?n" "occurs_at response fence j"
    by blast
  have jl: "j < i + 11"
  proof (rule ccontr)
    assume "\<not> j < i + 11"
    then have "i + 11 \<le> j" by simp
    from has_fenced_blockI [OF i(2) j(3) i(3) [unfolded opn_def] this j(4) [unfolded fence_def]]
      assms show False by simp
  qed
  define a where "a = min (i + 12) ?n"
  have a: "j \<le> a" "a \<le> ?n" "i + 11 \<le> a" "a \<le> i + 12"
    using jl j(3) len by (simp_all add: a_def)
  have ex: "extractMdFromLLMOutput response = Some (substring response (int i + 12) (int j))"
    unfolding extractMdFromLLMOutput_def Let_def
    using i(1) j(1) by (simp add: opn_def fence_def)
  have "substring response (int i + 12) (int j) = substring response (int a) (int j)"
  proof (cases "i + 12 \<le> ?n")
    case True
    then have "a = i + 12" by (simp add: a_def)
    then show ?thesis by simp
  next
    case False
    then have "a = ?n" "?n \<le> i + 12" by (simp_all add: a_def)
    with substring_clamped [of response "i + 12" "int j"] show ?thesis by simp
  qed
  also have "\<dots> = take (a - j) (drop j response)"
    by (rule substring_swapped [OF a(1) a(2)])
  finally have sub: "substring response (int i + 12) (int j) = take (a - j) (drop j response)" .
  define w where "w = drop (j - i) opn"
  define t where "t = take (a - i - 11) (drop (i + 11) response)"
  have di: "drop i response = opn @ drop (i + 11) response"
    using pre by (metis add.commute append_take_drop_id drop_drop)
  have "drop j response = drop (j - i) (drop i response)" using j(2) by simp
  also have "\<dots> = w @ drop (i + 11) response"
    unfolding di w_def using jl lo by simp
  finally have dj: "drop j response = w @ drop (i + 11) response" .
  have lw: "length w = 11 - (j - i)" by (simp add: w_def lo)
  have "take (a - j) (drop j response) = w @ t"
  proof -
    have "a - j - length w = a - i - 11" using lw a j(2) jl by simp
    moreover have "length w \<le> a - j" using lw a j(2) jl by simp
    ultimately show ?thesis unfolding dj t_def by simp
  qed
  with sub have E: "substring response (int i + 12) (int j) = w @ t" by simp
  have wne: "w \<noteq> []" using lw jl j(2) by auto
  have sw: "set w \<subseteq> set opn" unfolding w_def by (rule set_drop_subset)
  with nn have wn: "CHR 0x0A \<notin> set w" by blast
  from wne have "hd w \<in> set w" by simp
  with sw nh have wh: "hd w \<noteq> CHR ''#''" by auto
  have lt: "length t \<le> 1" using a by (simp add: t_def)
  from split_nl_short_tail [OF wn wne wh lt]
  have "titleLevelLoop (split_nl (w @ t)) Map.empty = Map.empty"
    by (rule titleLevelLoop_no_marker)
  then have "createTitleLevelMap (w @ t) = Map.empty" by (simp add: createTitleLevelMap_def)
  then have "adjustMarkdownHeadings c (w @ t) = c" by (rule adjustMarkdownHeadings_empty_map)
  then show ?thesis by (simp add: correctHeadings_def ex E)
qed

text \<open>
  Claim C8, at an input where the code departs from it: a response that opens a fenced
  markdown block and never closes it (a truncated response) contains no fenced block, yet
  \<open>extractMdFromLLMOutput\<close> does not return \<^verbatim>\<open>undefined\<close>. The last occurrence of the
  closing delimiter is the opening delimiter itself, both indices pass the test, and
  \<^verbatim>\<open>substring\<close> swaps its bounds and returns the opening delimiter line.
\<close>

theorem extractMdFromLLMOutput_unclosed_fence:
  "\<not> has_fenced_block ''```markdown\<newline># A\<newline>## B'' \<and>
   indexOf ''```markdown\<newline># A\<newline>## B'' ''```markdown'' = 0 \<and>
   lastIndexOf ''```markdown\<newline># A\<newline>## B'' ''```'' = 0 \<and>
   extractMdFromLLMOutput ''```markdown\<newline># A\<newline>## B'' = Some ''```markdown\<newline>''"
  by code_simp

section \<open>Properties of the pipeline\<close>

lemma stepE:
  assumes "step e s = Some s'"
  obtains
    (Finish) "e = Loop" "pc s = Running" "queue s = []" "inProgress s = []"
      "s' = s\<lparr>pc := Done\<rparr>"
  | (Start) item rest where "e = Loop" "pc s = Running" "queue s = item # rest"
      "length (inProgress s) < concurrencyLimit s"
      "s' = s\<lparr>queue := rest, started := started s @ [item],
                pending := pending s @ [length (started s)],
                inProgress := inProgress s @ [length (started s)]\<rparr>"
  | (Await) "e = Loop" "pc s = Running" "inProgress s \<noteq> []"
      "s' = s\<lparr>pc := Waiting False\<rparr>"
  | (Spin) "e = Loop" "pc s = Running" "inProgress s = []" "queue s \<noteq> []"
      "concurrencyLimit s = 0" "s' = s"
  | (Resume) "e = Loop" "pc s = Waiting True" "s' = s\<lparr>pc := Running\<rparr>"
  | (Return) k answer b where "e = ModelReturns k answer" "pc s = Waiting b"
      "k \<in> set (pending s)"
      "s' = (processImagesReturns k answer s)
              \<lparr>pending := remove1 k (pending s), awaitingThen := awaitingThen s @ [k]\<rparr>"
  | (Then) k b where "e = ThenCallback k" "pc s = Waiting b" "k \<in> set (awaitingThen s)"
      "s' = s\<lparr>awaitingThen := remove1 k (awaitingThen s),
                inProgress := remove1 k (inProgress s), pc := Waiting True\<rparr>"
proof (cases e)
  case Loop
  with assms have l: "loopStep s = Some s'" by simp
  show ?thesis
  proof (cases "pc s")
    case Running
    show ?thesis
    proof (cases "queue s = [] \<and> inProgress s = []")
      case True
      with l Running Loop show ?thesis by (intro Finish) (auto simp: loopStep_def)
    next
      case nf: False
      show ?thesis
      proof (cases "length (inProgress s) < concurrencyLimit s \<and> queue s \<noteq> []")
        case True
        then obtain item rest where q: "queue s = item # rest" by (cases "queue s") auto
        with l Running Loop True nf show ?thesis
          by (intro Start [of item rest]) (auto simp: loopStep_def)
      next
        case ns: False
        show ?thesis
        proof (cases "inProgress s = []")
          case True
          with l Running Loop nf ns show ?thesis
            by (intro Spin) (auto simp: loopStep_def)
        next
          case False
          with l Running Loop nf ns show ?thesis
            by (intro Await) (auto simp: loopStep_def)
        qed
      qed
    qed
  next
    case (Waiting b)
    with l Loop show ?thesis by (intro Resume) (auto simp: loopStep_def split: if_splits)
  next
    case Done
    with l show ?thesis by (simp add: loopStep_def)
  qed
next
  case (ModelReturns k answer)
  with assms obtain b where "pc s = Waiting b"
    by (cases "pc s") (auto simp: is_waiting_def split: if_splits)
  with assms ModelReturns show ?thesis
    by (intro Return [of k answer b]) (auto split: if_splits)
next
  case (ThenCallback k)
  with assms obtain b where "pc s = Waiting b"
    by (cases "pc s") (auto simp: is_waiting_def split: if_splits)
  with assms ThenCallback show ?thesis
    by (intro Then [of k b]) (auto split: if_splits)
qed

lemma processImagesReturns_simps [simp]:
  "imageFiles (processImagesReturns k a s) = imageFiles s"
  "concurrencyLimit (processImagesReturns k a s) = concurrencyLimit s"
  "queue (processImagesReturns k a s) = queue s"
  "started (processImagesReturns k a s) = started s"
  "pending (processImagesReturns k a s) = pending s"
  "awaitingThen (processImagesReturns k a s) = awaitingThen s"
  "inProgress (processImagesReturns k a s) = inProgress s"
  "pc (processImagesReturns k a s) = pc s"
  by (simp_all add: processImagesReturns_def Let_def split: option.splits)

lemma processImagesReturns_pageContents:
  "pageContents (processImagesReturns k a s) =
     pageContents s @
       (case a of None \<Rightarrow> []
        | Some c \<Rightarrow> [\<lparr>pageIndex = index (started s ! k), content = c\<rparr>])"
  by (simp add: processImagesReturns_def Let_def split: option.splits)

lemma processImagesReturns_progress:
  "progress (processImagesReturns k a s) =
     progress s @
       (case a of None \<Rightarrow> []
        | Some c \<Rightarrow> [\<lparr>current = Suc (length (pageContents s)),
                       total = length (imageFiles s), taskStatus = running\<rparr>])"
  by (simp add: processImagesReturns_def Let_def split: option.splits)

lemma step_constants:
  "step e s = Some s' \<Longrightarrow>
     imageFiles s' = imageFiles s \<and> concurrencyLimit s' = concurrencyLimit s"
  by (erule stepE) simp_all

lemma exec_constants:
  "exec evs s = Some s' \<Longrightarrow>
     imageFiles s' = imageFiles s \<and> concurrencyLimit s' = concurrencyLimit s"
proof (induction evs arbitrary: s)
  case Nil
  then show ?case by simp
next
  case (Cons e es)
  then obtain t where t: "step e s = Some t" "exec es t = Some s'"
    by (auto split: option.splits)
  with Cons.IH [OF t(2)] step_constants [OF t(1)] show ?case by simp
qed

lemma ids_ok_init: "ids_ok (init items limit)"
  by (simp add: ids_ok_def init_def)

lemma ids_ok_step:
  assumes "step e s = Some s'" "ids_ok s"
  shows "ids_ok s'"
  using assms(1)
proof (cases rule: stepE)
  case Finish
  with assms(2) show ?thesis by (simp add: ids_ok_def)
next
  case (Start item rest)
  with assms(2) show ?thesis by (auto simp: ids_ok_def less_Suc_eq)
next
  case Await
  with assms(2) show ?thesis by (simp add: ids_ok_def)
next
  case Spin
  with assms(2) show ?thesis by simp
next
  case Resume
  with assms(2) show ?thesis by (simp add: ids_ok_def)
next
  case (Return k answer b)
  with assms(2) show ?thesis by (auto simp: ids_ok_def)
next
  case (Then k b)
  with assms(2) have d: "distinct (inProgress s)" "distinct (pending s)" "distinct (awaitingThen s)"
    and dj: "set (pending s) \<inter> set (awaitingThen s) = {}"
    and eq: "set (inProgress s) = set (pending s) \<union> set (awaitingThen s)"
    by (auto simp: ids_ok_def)
  have "length (remove1 k (inProgress s)) \<le> length (inProgress s)"
    by (simp add: length_remove1)
  moreover have "set (remove1 k (inProgress s)) = set (pending s) \<union> set (remove1 k (awaitingThen s))"
    using d dj eq Then(3) by auto
  ultimately show ?thesis using Then assms(2) d by (auto simp: ids_ok_def)
qed

lemma ids_ok_exec: "exec evs s = Some s' \<Longrightarrow> ids_ok s \<Longrightarrow> ids_ok s'"
proof (induction evs arbitrary: s)
  case Nil
  then show ?case by simp
next
  case (Cons e es)
  then obtain t where t: "step e s = Some t" "exec es t = Some s'"
    by (auto split: option.splits)
  from Cons.IH [OF t(2) ids_ok_step [OF t(1) Cons.prems(2)]] show ?case .
qed


lemma budget_step:
  assumes "step e s = Some s'" "1 \<le> concurrencyLimit s"
  shows "budget s' < budget s"
  using assms(1)
proof (cases rule: stepE)
  case Finish
  then show ?thesis by (simp add: budget_def)
next
  case (Start item rest)
  then show ?thesis by (simp add: budget_def)
next
  case Await
  then show ?thesis by (simp add: budget_def)
next
  case Spin
  with assms(2) show ?thesis by simp
next
  case Resume
  then show ?thesis by (simp add: budget_def)
next
  case (Return k answer b)
  then have "length (pending s) = Suc (length (remove1 k (pending s)))"
    by (simp add: length_remove1) (metis Suc_pred length_pos_if_in_set)
  with Return show ?thesis by (simp add: budget_def)
next
  case (Then k b)
  then have "length (awaitingThen s) = Suc (length (remove1 k (awaitingThen s)))"
    by (simp add: length_remove1) (metis Suc_pred length_pos_if_in_set)
  with Then show ?thesis by (simp add: budget_def)
qed

lemma budget_exec:
  "exec evs s = Some s' \<Longrightarrow> 1 \<le> concurrencyLimit s \<Longrightarrow> length evs + budget s' \<le> budget s"
proof (induction evs arbitrary: s)
  case Nil
  then show ?case by simp
next
  case (Cons e es)
  then obtain t where t: "step e s = Some t" "exec es t = Some s'"
    by (auto split: option.splits)
  have c: "1 \<le> concurrencyLimit t" using step_constants [OF t(1)] Cons.prems(2) by simp
  from Cons.IH [OF t(2) c] budget_step [OF t(1) Cons.prems(2)] show ?case by simp
qed

lemma step_enabled:
  assumes "ids_ok s" "pc s \<noteq> Done"
  shows "\<exists>e s'. step e s = Some s'"
proof (cases "pc s")
  case Running
  then have "\<exists>s'. loopStep s = Some s'"
    by (cases "queue s") (auto simp: loopStep_def)
  then show ?thesis by (metis step.simps(1))
next
  case (Waiting b)
  show ?thesis
  proof (cases b)
    case True
    with Waiting have "loopStep s = Some (s\<lparr>pc := Running\<rparr>)" by (simp add: loopStep_def)
    then show ?thesis by (metis step.simps(1))
  next
    case False
    with Waiting assms(1) have "inProgress s \<noteq> []"
      and eq: "set (inProgress s) = set (pending s) \<union> set (awaitingThen s)"
      by (simp_all add: ids_ok_def)
    then obtain k where "k \<in> set (inProgress s)" by (cases "inProgress s") auto
    with eq have "k \<in> set (pending s) \<union> set (awaitingThen s)" by simp
    then consider "k \<in> set (pending s)" | "k \<in> set (awaitingThen s)" by blast
    then show ?thesis
    proof cases
      case 1
      with Waiting have "step (ModelReturns k None) s \<noteq> None"
        by (simp add: is_waiting_def)
      then show ?thesis by blast
    next
      case 2
      with Waiting have "step (ThenCallback k) s \<noteq> None"
        by (simp add: is_waiting_def)
      then show ?thesis by blast
    qed
  qed
next
  case Done
  with assms(2) show ?thesis by simp
qed

lemma results_ok_init: "results_ok (init items limit)"
  by (simp add: results_ok_def init_def running_reports_def)

lemma running_reports_Suc:
  "running_reports n (Suc d) =
     running_reports n d @ [\<lparr>current = Suc d, total = n, taskStatus = running\<rparr>]"
  by (simp add: running_reports_def)

lemma results_ok_step:
  assumes "step e s = Some s'" "ids_ok s" "results_ok s"
  shows "results_ok s'"
  using assms(1)
proof (cases rule: stepE)
  case Finish
  with assms(3) show ?thesis by (simp add: results_ok_def)
next
  case (Start item rest)
  have "\<And>p. p \<in> set (pageContents s) \<Longrightarrow>
      \<exists>k < Suc (length (started s)). k \<notin> set (pending s @ [length (started s)]) \<and>
         pageIndex p = index ((started s @ [item]) ! k)"
  proof -
    fix p assume "p \<in> set (pageContents s)"
    with assms(3) obtain k where "k < length (started s)" "k \<notin> set (pending s)"
      "pageIndex p = index (started s ! k)" by (auto simp: results_ok_def)
    then show "\<exists>k < Suc (length (started s)). k \<notin> set (pending s @ [length (started s)]) \<and>
         pageIndex p = index ((started s @ [item]) ! k)"
      by (intro exI [of _ k]) (simp add: nth_append)
  qed
  with Start assms(3) show ?thesis by (simp add: results_ok_def)
next
  case Await
  with assms(3) show ?thesis by (simp add: results_ok_def)
next
  case Spin
  with assms(3) show ?thesis by simp
next
  case Resume
  with assms(3) show ?thesis by (simp add: results_ok_def)
next
  case (Return k answer b)
  from assms(2) Return(3) have kl: "k < length (started s)" and dp: "distinct (pending s)"
    by (auto simp: ids_ok_def)
  have len: "length (pending s) = Suc (length (remove1 k (pending s)))"
    using Return(3) by (simp add: length_remove1) (metis Suc_pred length_pos_if_in_set)
  have keep: "\<And>j. j \<notin> set (pending s) \<Longrightarrow> j \<notin> set (remove1 k (pending s))"
    by (meson notin_set_remove1)
  have knew: "k \<notin> set (remove1 k (pending s))" using dp by simp
  have old: "\<forall>p \<in> set (pageContents s).
        \<exists>j < length (started s). j \<notin> set (remove1 k (pending s)) \<and>
          pageIndex p = index (started s ! j)"
    using assms(3) keep unfolding results_ok_def by blast
  show ?thesis
  proof (cases answer)
    case None
    with Return assms(3) len old show ?thesis
      by (simp add: results_ok_def processImagesReturns_pageContents
          processImagesReturns_progress)
  next
    case (Some c)
    have prov: "\<forall>p \<in> set (pageContents s @ [\<lparr>pageIndex = index (started s ! k), content = c\<rparr>]).
        \<exists>j < length (started s). j \<notin> set (remove1 k (pending s)) \<and>
          pageIndex p = index (started s ! j)"
      using old knew kl by auto
    have dist: "distinct (map index (imageFiles s)) \<longrightarrow>
        distinct (map pageIndex (pageContents s @ [\<lparr>pageIndex = index (started s ! k), content = c\<rparr>]))"
    proof
      assume di: "distinct (map index (imageFiles s))"
      from assms(2) have "map index (started s) @ map index (queue s) = map index (imageFiles s)"
        unfolding ids_ok_def by (metis map_append)
      with di have ds: "distinct (map index (started s))"
        by (metis distinct_append)
      have "index (started s ! k) \<notin> pageIndex ` set (pageContents s)"
      proof
        assume "index (started s ! k) \<in> pageIndex ` set (pageContents s)"
        then obtain p where p: "p \<in> set (pageContents s)" "pageIndex p = index (started s ! k)"
          by auto
        with assms(3) obtain j where j: "j < length (started s)" "j \<notin> set (pending s)"
          "pageIndex p = index (started s ! j)" by (auto simp: results_ok_def)
        with p have "map index (started s) ! j = map index (started s) ! k" using kl by simp
        with ds j(1) kl have "j = k"
          using nth_eq_iff_index_eq [of "map index (started s)" j k] by simp
        with j(2) Return(3) show False by simp
      qed
      with assms(3) di show "distinct (map pageIndex
          (pageContents s @ [\<lparr>pageIndex = index (started s ! k), content = c\<rparr>]))"
        by (simp add: results_ok_def)
    qed
    from Return Some assms(3) len prov dist show ?thesis
      by (simp add: results_ok_def processImagesReturns_pageContents
          processImagesReturns_progress running_reports_Suc)
  qed
next
  case (Then k b)
  with assms(3) show ?thesis by (simp add: results_ok_def)
qed

lemma results_ok_exec:
  "exec evs s = Some s' \<Longrightarrow> ids_ok s \<Longrightarrow> results_ok s \<Longrightarrow> results_ok s'"
proof (induction evs arbitrary: s)
  case Nil
  then show ?case by simp
next
  case (Cons e es)
  then obtain t where t: "step e s = Some t" "exec es t = Some s'"
    by (auto split: option.splits)
  from Cons.IH [OF t(2) ids_ok_step [OF t(1) Cons.prems(2)]
      results_ok_step [OF t(1) Cons.prems(2) Cons.prems(3)]]
  show ?case .
qed

lemma completions_exec:
  "exec evs s = Some s' \<Longrightarrow> ids_ok s \<Longrightarrow>
     pageContents s' = pageContents s @ completions (imageFiles s) evs"
proof (induction evs arbitrary: s)
  case Nil
  then show ?case by (simp add: completions_def List.map_filter_simps)
next
  case (Cons e es)
  then obtain t where t: "step e s = Some t" "exec es t = Some s'"
    by (auto split: option.splits)
  have it: "imageFiles t = imageFiles s" using step_constants [OF t(1)] by simp
  have one: "pageContents t =
      pageContents s @ (case completion (imageFiles s) e of None \<Rightarrow> [] | Some p \<Rightarrow> [p])"
    using t(1)
  proof (cases rule: stepE)
    case (Return k answer b)
    with Cons.prems(2) have "k < length (started s)" by (auto simp: ids_ok_def)
    moreover from Cons.prems(2) have "started s @ queue s = imageFiles s"
      by (simp add: ids_ok_def)
    ultimately have "imageFiles s ! k = started s ! k" by (metis nth_append)
    with Return show ?thesis
      by (simp add: processImagesReturns_pageContents completion_def split: option.splits)
  qed (simp_all add: completion_def)
  from Cons.IH [OF t(2) ids_ok_step [OF t(1) Cons.prems(2)]] one it
  show ?case
    by (simp add: completions_def List.map_filter_simps split: option.splits)
qed


lemma filter_same_key:
  "distinct (map f xs) \<Longrightarrow> k \<in> set xs \<Longrightarrow> filter (\<lambda>x. f k = f x) xs = [k]"
proof (induction xs)
  case Nil
  then show ?case by simp
next
  case (Cons a xs)
  show ?case
  proof (cases "k = a")
    case True
    with Cons.prems have "\<forall>x \<in> set xs. f a \<noteq> f x" by auto
    then have "filter (\<lambda>x. f a = f x) xs = []" by (simp add: filter_empty_conv)
    with True show ?thesis by simp
  next
    case False
    with Cons.prems have kx: "k \<in> set xs" and "f a \<notin> f ` set xs" by auto
    then have "f k \<noteq> f a" by (metis imageI)
    note this kx
    with Cons show ?thesis by simp
  qed
qed

lemma sort_key_unique:
  assumes "mset ys = mset xs" "distinct (map f xs)"
  shows "sort_key f ys = sort_key f xs"
proof (rule properties_for_sort_key)
  show "mset (sort_key f xs) = mset ys" using assms(1) by simp
  show "sorted (map f (sort_key f xs))" by simp
  fix k assume k: "k \<in> set (sort_key f xs)"
  have "mset (map f ys) = mset (map f xs)" using assms(1) by simp
  with assms(2) have dy: "distinct (map f ys)" by (metis mset_eq_imp_distinct_iff)
  have "mset (map f (sort_key f xs)) = mset (map f xs)" by simp
  with assms(2) have ds: "distinct (map f (sort_key f xs))"
    by (metis mset_eq_imp_distinct_iff)
  from k assms(1) have ky: "k \<in> set ys" by (metis mset_eq_setD set_sort)
  show "filter (\<lambda>x. f k = f x) (sort_key f xs) = filter (\<lambda>x. f k = f x) ys"
    using filter_same_key [OF ds k] filter_same_key [OF dy ky] by simp
qed

lemma reports_sorted:
  "d \<le> n \<Longrightarrow>
     sorted (map current (\<lparr>current = 0, total = n, taskStatus = starting\<rparr> # running_reports n d)) \<and>
     sorted (map current ((\<lparr>current = 0, total = n, taskStatus = starting\<rparr> # running_reports n d) @
                          [\<lparr>current = n, total = n, taskStatus = finished\<rparr>]))"
proof -
  have m: "map current (running_reports n d) = [1 ..< Suc d]"
    by (simp add: running_reports_def comp_def)
  assume "d \<le> n"
  then show ?thesis by (auto simp: m sorted_append)
qed

lemma reports_no_finished:
  "finished \<notin> taskStatus ` set (\<lparr>current = 0, total = n, taskStatus = starting\<rparr> # running_reports n d)"
  by (auto simp: running_reports_def)

text \<open>
  Claim C1. Take a document whose page images have pairwise different indices, any
  concurrency limit, and any run of the pipeline to its end, whatever the order in which
  the invocations complete and whichever of them fail. When \<open>processInParallel\<close> returns,
  every invocation has settled and the results collection holds the successful pages in
  completion order. \<open>parsePdf\<close> then sorts it by \<open>pageIndex\<close>: the sorted collection is
  strictly ascending and holds the same entries, the assembled content is the
  concatenation of its page contents in that order, and the assembled content does not
  depend on the completion order: every arrangement of the same entries gives the same
  content.
\<close>

theorem parsePdf_order_restoration:
  assumes "exec evs (init items limit) = Some s" and "pc s = Done"
    and "distinct (map index items)"
  shows "pending s = [] \<and> awaitingThen s = [] \<and>
         pageContents s = completions items evs \<and>
         sorted (map pageIndex (sort_key pageIndex (pageContents s))) \<and>
         distinct (map pageIndex (sort_key pageIndex (pageContents s))) \<and>
         mset (sort_key pageIndex (pageContents s)) = mset (pageContents s) \<and>
         assemble (pageContents s) =
           concat (map (\<lambda>p. content p @ [CHR 0x0A]) (sort_key pageIndex (pageContents s))) \<and>
         (\<forall>pcs'. mset pcs' = mset (pageContents s) \<longrightarrow>
                  assemble pcs' = assemble (pageContents s))"
proof -
  have i: "ids_ok s" using ids_ok_exec [OF assms(1) ids_ok_init] .
  have r: "results_ok s" using results_ok_exec [OF assms(1) ids_ok_init results_ok_init] .
  have c: "imageFiles s = items" using exec_constants [OF assms(1)] by (simp add: init_def)
  from i assms(2) have "set (pending s) \<union> set (awaitingThen s) = set []"
    unfolding ids_ok_def by metis
  then have s1: "pending s = []" and s2: "awaitingThen s = []" by simp_all
  have pcs: "pageContents s = completions items evs"
    using completions_exec [OF assms(1) ids_ok_init] by (simp add: init_def)
  from r c assms(3) have d: "distinct (map pageIndex (pageContents s))"
    by (simp add: results_ok_def)
  have srt: "sorted (map pageIndex (sort_key pageIndex (pageContents s)))" by simp
  have "mset (map pageIndex (sort_key pageIndex (pageContents s))) =
        mset (map pageIndex (pageContents s))" by simp
  with d have ds: "distinct (map pageIndex (sort_key pageIndex (pageContents s)))"
    by (metis mset_eq_imp_distinct_iff)
  have ms: "mset (sort_key pageIndex (pageContents s)) = mset (pageContents s)" by simp
  have as: "assemble (pageContents s) =
      concat (map (\<lambda>p. content p @ [CHR 0x0A]) (sort_key pageIndex (pageContents s)))"
    by (simp only: assemble_def)
  have u: "\<forall>pcs'. mset pcs' = mset (pageContents s) \<longrightarrow> assemble pcs' = assemble (pageContents s)"
  proof (intro allI impI)
    fix pcs' assume m: "mset pcs' = mset (pageContents s)"
    from sort_key_unique [OF m d] show "assemble pcs' = assemble (pageContents s)"
      by (simp only: assemble_def)
  qed
  show ?thesis by (intro conjI) (rule s1 s2 pcs srt ds ms as u)+
qed

theorem parsePdf_order_restoration_witness:
  "exec [Loop, Loop, Loop, ModelReturns 1 (Some ''b''), ThenCallback 1,
         ModelReturns 0 (Some ''a''), ThenCallback 0, Loop, Loop, Loop,
         ModelReturns 2 (Some ''c''), ThenCallback 2, Loop, Loop]
        (init [page 0, page 1, page 2] 2) \<noteq> None \<and>
   pc (the (exec [Loop, Loop, Loop, ModelReturns 1 (Some ''b''), ThenCallback 1,
         ModelReturns 0 (Some ''a''), ThenCallback 0, Loop, Loop, Loop,
         ModelReturns 2 (Some ''c''), ThenCallback 2, Loop, Loop]
        (init [page 0, page 1, page 2] 2))) = Done \<and>
   distinct (map index [page 0, page 1, page 2]) \<and>
   pageContents (the (exec [Loop, Loop, Loop, ModelReturns 1 (Some ''b''), ThenCallback 1,
         ModelReturns 0 (Some ''a''), ThenCallback 0, Loop, Loop, Loop,
         ModelReturns 2 (Some ''c''), ThenCallback 2, Loop, Loop]
        (init [page 0, page 1, page 2] 2))) =
     [\<lparr>pageIndex = 1, content = ''b''\<rparr>, \<lparr>pageIndex = 0, content = ''a''\<rparr>,
      \<lparr>pageIndex = 2, content = ''c''\<rparr>] \<and>
   assemble [\<lparr>pageIndex = 1, content = ''b''\<rparr>, \<lparr>pageIndex = 0, content = ''a''\<rparr>,
      \<lparr>pageIndex = 2, content = ''c''\<rparr>] = ''a\<newline>b\<newline>c\<newline>'' \<and>
   assemble [\<lparr>pageIndex = 2, content = ''c''\<rparr>, \<lparr>pageIndex = 1, content = ''b''\<rparr>,
      \<lparr>pageIndex = 0, content = ''a''\<rparr>] = ''a\<newline>b\<newline>c\<newline>''"
proof -
  let ?evs = "[Loop, Loop, Loop, ModelReturns 1 (Some ''b''), ThenCallback 1,
         ModelReturns 0 (Some ''a''), ThenCallback 0, Loop, Loop, Loop,
         ModelReturns 2 (Some ''c''), ThenCallback 2, Loop, Loop]"
  let ?items = "[page 0, page 1, page 2]"
  let ?pcs = "[\<lparr>pageIndex = 1, content = ''b''\<rparr>, \<lparr>pageIndex = 0, content = ''a''\<rparr>,
      \<lparr>pageIndex = 2, content = ''c''\<rparr>]"
  let ?rev = "[\<lparr>pageIndex = 2, content = ''c''\<rparr>, \<lparr>pageIndex = 1, content = ''b''\<rparr>,
      \<lparr>pageIndex = 0, content = ''a''\<rparr>]"
  have e: "exec ?evs (init ?items 2) \<noteq> None" by code_simp
  have p: "pc (the (exec ?evs (init ?items 2))) = Done" by code_simp
  have c: "pageContents (the (exec ?evs (init ?items 2))) = ?pcs" by code_simp
  from e p c obtain s where s: "exec ?evs (init ?items 2) = Some s" "pc s = Done"
    "pageContents s = ?pcs"
    by auto
  have d: "distinct (map index ?items)" by code_simp
  have a: "assemble ?pcs = ''a\<newline>b\<newline>c\<newline>''" by code_simp
  have m: "mset ?rev = mset (pageContents s)" unfolding s(3) by (simp add: add.commute)
  from parsePdf_order_restoration [OF s(1) s(2) d] m
  have "assemble ?rev = assemble (pageContents s)" by blast
  with a s d show ?thesis by simp
qed


text \<open>
  Claim C2. Take any item list, any concurrency limit of at least 1 and any run of
  \<open>processInParallel\<close> up to any point, whichever invocations have failed so far. At that
  point no more invocations are unsettled than the limit allows (they are among the at
  most \<open>limit\<close> promises of \<open>inProgress\<close>); the items started and the items still queued
  make up the item list, in order, so that no item is started twice and, once the
  function has returned, every item has been started and has settled. Unless the
  function has returned, some event can happen next, and no run has more than
  \<open>5 * N + 1\<close> steps: the function returns.
\<close>

theorem processInParallel_ceiling:
  assumes "exec evs (init items limit) = Some s" and "1 \<le> limit"
  shows "length (pending s) \<le> limit \<and> distinct (pending s) \<and>
         set (pending s) \<subseteq> set (inProgress s) \<and> length (inProgress s) \<le> limit \<and>
         started s @ queue s = items \<and>
         (pc s = Done \<longrightarrow> started s = items \<and> pending s = [] \<and> awaitingThen s = []) \<and>
         (pc s \<noteq> Done \<longrightarrow> (\<exists>e s'. step e s = Some s')) \<and>
         length evs \<le> 5 * length items + 1"
proof -
  have i: "ids_ok s" using ids_ok_exec [OF assms(1) ids_ok_init] .
  have c: "imageFiles s = items" "concurrencyLimit s = limit"
    using exec_constants [OF assms(1)] by (simp_all add: init_def)
  from i have dp: "distinct (pending s)" and di: "distinct (inProgress s)"
    and sub: "set (pending s) \<subseteq> set (inProgress s)"
    and li: "length (inProgress s) \<le> limit"
    and sq: "started s @ queue s = items"
    using c by (auto simp: ids_ok_def)
  have "card (set (pending s)) \<le> card (set (inProgress s))"
    using sub by (simp add: card_mono)
  with dp di li have lp: "length (pending s) \<le> limit"
    by (simp add: distinct_card)
  have dn: "pc s = Done \<longrightarrow> started s = items \<and> pending s = [] \<and> awaitingThen s = []"
  proof
    assume d: "pc s = Done"
    with i have q: "queue s = []" and "set (pending s) \<union> set (awaitingThen s) = set []"
      unfolding ids_ok_def by metis+
    with sq show "started s = items \<and> pending s = [] \<and> awaitingThen s = []" by simp
  qed
  have en: "pc s \<noteq> Done \<longrightarrow> (\<exists>e s'. step e s = Some s')"
    using step_enabled [OF i] by blast
  have "length evs + budget s \<le> budget (init items limit)"
    using budget_exec [OF assms(1)] assms(2) by (simp add: init_def)
  then have bd: "length evs \<le> 5 * length items + 1"
    by (simp add: budget_def init_def)
  show ?thesis by (intro conjI) (rule lp dp sub li sq dn en bd)+
qed

theorem processInParallel_ceiling_witness:
  "exec [Loop, Loop, Loop, ModelReturns 1 None, ThenCallback 1, Loop, Loop, Loop,
         ModelReturns 2 (Some ''c''), ModelReturns 0 (Some ''a''), ThenCallback 0,
         ThenCallback 2, Loop, Loop]
        (init [page 0, page 1, page 2] 2) \<noteq> None \<and> (1::nat) \<le> 2 \<and>
   pc (the (exec [Loop, Loop, Loop, ModelReturns 1 None, ThenCallback 1, Loop, Loop, Loop,
         ModelReturns 2 (Some ''c''), ModelReturns 0 (Some ''a''), ThenCallback 0,
         ThenCallback 2, Loop, Loop]
        (init [page 0, page 1, page 2] 2))) = Done \<and>
   started (the (exec [Loop, Loop, Loop, ModelReturns 1 None, ThenCallback 1, Loop, Loop, Loop,
         ModelReturns 2 (Some ''c''), ModelReturns 0 (Some ''a''), ThenCallback 0,
         ThenCallback 2, Loop, Loop]
        (init [page 0, page 1, page 2] 2))) = [page 0, page 1, page 2] \<and>
   pending (the (exec [Loop, Loop, Loop] (init [page 0, page 1, page 2] 2))) = [0, 1] \<and>
   pc (the (exec [Loop, Loop, Loop] (init [page 0, page 1, page 2] 2))) = Waiting False \<and>
   step (ModelReturns 1 None) (the (exec [Loop, Loop, Loop] (init [page 0, page 1, page 2] 2)))
     \<noteq> None"
proof -
  let ?evs = "[Loop, Loop, Loop, ModelReturns 1 None, ThenCallback 1, Loop, Loop, Loop,
         ModelReturns 2 (Some ''c''), ModelReturns 0 (Some ''a''), ThenCallback 0,
         ThenCallback 2, Loop, Loop]"
  let ?items = "[page 0, page 1, page 2]"
  have e: "exec ?evs (init ?items 2) \<noteq> None" by code_simp
  have p: "pc (the (exec ?evs (init ?items 2))) = Done" by code_simp
  from e obtain s where s: "exec ?evs (init ?items 2) = Some s" by auto
  have l: "(1::nat) \<le> 2" by simp
  from processInParallel_ceiling [OF s l] p s
  have st: "started (the (exec ?evs (init ?items 2))) = ?items" by simp
  have e3: "exec [Loop, Loop, Loop] (init ?items 2) \<noteq> None" by code_simp
  have p3: "pending (the (exec [Loop, Loop, Loop] (init ?items 2))) = [0, 1]" by code_simp
  have w3: "pc (the (exec [Loop, Loop, Loop] (init ?items 2))) = Waiting False" by code_simp
  have n3: "step (ModelReturns 1 None) (the (exec [Loop, Loop, Loop] (init ?items 2))) \<noteq> None"
    by code_simp
  show ?thesis by (intro conjI) (rule e l p st p3 w3 n3)+
qed

text \<open>
  Claim C7. In every run of \<open>parsePdf\<close> with a progress callback, at every point of the
  pipeline the calls made so far are: one report with status \<open>starting\<close> and current 0,
  then one report with status \<open>running\<close> for each page invocation that has completed with
  content so far, in completion order, the \<open>k\<close>-th of them with current \<open>k\<close>, the number
  of pages completed. A failed invocation makes no report. The current values never
  decrease and never exceed the total. When the pipeline has completed, heading
  correction and the writing of the file included, one more report follows, with status
  \<open>finished\<close> and current equal to the total, and the values are still non-decreasing;
  when the outline request or the writing fails, no report with status \<open>finished\<close> is made.
\<close>

theorem onProgress_reports:
  assumes "exec evs (init items limit) = Some s"
  shows "progress s =
           \<lparr>current = 0, total = length items, taskStatus = starting\<rparr> #
           running_reports (length items) (length (completions items evs)) \<and>
         length (completions items evs) \<le> length items \<and>
         sorted (map current (progress s)) \<and>
         (pc s = Done \<longrightarrow>
            reports (finishParsePdf s (Some response) True) =
              progress s @
              [\<lparr>current = length items, total = length items, taskStatus = finished\<rparr>] \<and>
            sorted (map current (reports (finishParsePdf s (Some response) True))) \<and>
            finished \<notin> taskStatus ` set (reports (finishParsePdf s None writeOk)) \<and>
            finished \<notin> taskStatus ` set (reports (finishParsePdf s (Some response) False)))"
proof -
  have i: "ids_ok s" using ids_ok_exec [OF assms(1) ids_ok_init] .
  have r: "results_ok s" using results_ok_exec [OF assms ids_ok_init results_ok_init] .
  have c: "imageFiles s = items" using exec_constants [OF assms] by (simp add: init_def)
  have pcs: "pageContents s = completions items evs"
    using completions_exec [OF assms ids_ok_init] by (simp add: init_def)
  from r c pcs have pr: "progress s =
      \<lparr>current = 0, total = length items, taskStatus = starting\<rparr> #
      running_reports (length items) (length (completions items evs))"
    by (simp add: results_ok_def)
  from i have "length (started s) \<le> length items"
    unfolding ids_ok_def c by (metis le_add1 length_append)
  with r pcs have le: "length (completions items evs) \<le> length items"
    by (simp add: results_ok_def)
  note so = reports_sorted [OF le]
  have s1: "sorted (map current (progress s))" unfolding pr using so by blast
  have f1: "reports (finishParsePdf s (Some response) True) =
      progress s @ [\<lparr>current = length items, total = length items, taskStatus = finished\<rparr>]"
    by (simp add: finishParsePdf_def Let_def c)
  have s2: "sorted (map current (reports (finishParsePdf s (Some response) True)))"
    unfolding f1 pr using so by blast
  have n1: "finished \<notin> taskStatus ` set (reports (finishParsePdf s None writeOk))"
    using reports_no_finished [of "length items" "length (completions items evs)"]
    by (simp add: finishParsePdf_def Let_def pr)
  have n2: "finished \<notin> taskStatus ` set (reports (finishParsePdf s (Some response) False))"
    using reports_no_finished [of "length items" "length (completions items evs)"]
    by (simp add: finishParsePdf_def Let_def pr)
  show ?thesis using pr le s1 f1 s2 n1 n2 by blast
qed

theorem onProgress_reports_witness:
  "exec [Loop, Loop, Loop, ModelReturns 1 None, ThenCallback 1, Loop, Loop, Loop,
         ModelReturns 2 (Some ''c''), ModelReturns 0 (Some ''a''), ThenCallback 0,
         ThenCallback 2, Loop, Loop]
        (init [page 0, page 1, page 2] 2) \<noteq> None \<and>
   pc (the (exec [Loop, Loop, Loop, ModelReturns 1 None, ThenCallback 1, Loop, Loop, Loop,
         ModelReturns 2 (Some ''c''), ModelReturns 0 (Some ''a''), ThenCallback 0,
         ThenCallback 2, Loop, Loop]
        (init [page 0, page 1, page 2] 2))) = Done \<and>
   reports (finishParsePdf
     (the (exec [Loop, Loop, Loop, ModelReturns 1 None, ThenCallback 1, Loop, Loop, Loop,
         ModelReturns 2 (Some ''c''), ModelReturns 0 (Some ''a''), ThenCallback 0,
         ThenCallback 2, Loop, Loop]
        (init [page 0, page 1, page 2] 2))) (Some ''no outline'') True) =
     [\<lparr>current = 0, total = 3, taskStatus = starting\<rparr>,
      \<lparr>current = 1, total = 3, taskStatus = running\<rparr>,
      \<lparr>current = 2, total = 3, taskStatus = running\<rparr>,
      \<lparr>current = 3, total = 3, taskStatus = finished\<rparr>]"
proof -
  let ?evs = "[Loop, Loop, Loop, ModelReturns 1 None, ThenCallback 1, Loop, Loop, Loop,
         ModelReturns 2 (Some ''c''), ModelReturns 0 (Some ''a''), ThenCallback 0,
         ThenCallback 2, Loop, Loop]"
  let ?items = "[page 0, page 1, page 2]"
  have e: "exec ?evs (init ?items 2) \<noteq> None" by code_simp
  have p: "pc (the (exec ?evs (init ?items 2))) = Done" by code_simp
  from e obtain s where s: "exec ?evs (init ?items 2) = Some s" by auto
  have n: "length (completions ?items ?evs) = 2" by code_simp
  have rr: "running_reports 3 2 =
      [\<lparr>current = 1, total = 3, taskStatus = running\<rparr>,
       \<lparr>current = 2, total = 3, taskStatus = running\<rparr>]" by code_simp
  have len: "length ?items = 3" by simp
  from p s have d: "pc s = Done" by simp
  note t = onProgress_reports [OF s, of "''no outline''" True]
  from t have a: "progress s =
      \<lparr>current = 0, total = length ?items, taskStatus = starting\<rparr> #
      running_reports (length ?items) (length (completions ?items ?evs))"
    by (rule conjunct1)
  from t d have b: "reports (finishParsePdf s (Some ''no outline'') True) =
      progress s @
      [\<lparr>current = length ?items, total = length ?items, taskStatus = finished\<rparr>]"
    by blast
  have "reports (finishParsePdf s (Some ''no outline'') True) =
     [\<lparr>current = 0, total = 3, taskStatus = starting\<rparr>,
      \<lparr>current = 1, total = 3, taskStatus = running\<rparr>,
      \<lparr>current = 2, total = 3, taskStatus = running\<rparr>,
      \<lparr>current = 3, total = 3, taskStatus = finished\<rparr>]"
    unfolding b a n len rr by simp
  with e p s show ?thesis by simp
qed

end
